theory Spec2Isabelle
  imports Main
begin

text \<open>
  A model of the music organizer: the name sanitizer \<open>clean_name\<close>, the metadata resolver
  (\<open>parse_metadata\<close>, \<open>parse_from_path\<close>, \<open>parse_filename_only\<close>), file enumeration, the
  scan loop of \<open>organize\<close> with its duplicate index, near-duplicate groups and placement
  plan, and the counter update of \<open>generate_reports\<close>. Each function is a HOL function of
  the same name; the organizer object is passed and returned explicitly, and what the code
  reads from the file system or the tag library is a field of an environment record.
\<close>

section \<open>Strings as Python sees them\<close>

text \<open>
  A Python \<open>str\<close> is modelled as a \<open>string\<close>; a \<open>char\<close> stands for a code point below 256.
  The character classes below are those of CPython restricted to that range:
  \<open>str.isspace\<close> (also the class \<open>\s\<close> of \<open>re\<close> on \<open>str\<close> patterns), the decimal digits
  matched by \<open>\d\<close>, \<open>str.isdigit\<close> (which also accepts the superscripts 1, 2 and 3) and
  \<open>str.lower\<close>.
\<close>

definition isspace :: "char \<Rightarrow> bool" where
  "isspace c \<longleftrightarrow> c \<in> set [CHR 0x09, CHR 0x0A, CHR 0x0B, CHR 0x0C, CHR 0x0D,
     CHR 0x1C, CHR 0x1D, CHR 0x1E, CHR 0x1F, CHR 0x20, CHR 0x85, CHR 0xA0]"

definition isdecimal :: "char \<Rightarrow> bool" where
  "isdecimal c \<longleftrightarrow> c \<in> set ''0123456789''"

definition isdigit_char :: "char \<Rightarrow> bool" where
  "isdigit_char c \<longleftrightarrow> isdecimal c \<or> c \<in> set [CHR 0xB2, CHR 0xB3, CHR 0xB9]"

text \<open>\<open>s.isdigit()\<close>: every character is a digit and there is at least one.\<close>

definition isdigit :: "string \<Rightarrow> bool" where
  "isdigit s \<longleftrightarrow> s \<noteq> [] \<and> list_all isdigit_char s"

definition lower_char :: "char \<Rightarrow> char" where
  "lower_char c =
     (let n = of_char c :: nat in
      if (65 \<le> n \<and> n \<le> 90) \<or> (192 \<le> n \<and> n \<le> 222 \<and> n \<noteq> 215)
      then char_of (n + 32) else c)"

definition lower :: "string \<Rightarrow> string" where
  "lower s = map lower_char s"

text \<open>\<open>s.lstrip\<close>, \<open>s.rstrip\<close> and \<open>s.strip\<close> for a class of characters \<open>P\<close>.\<close>

definition lstrip_chars :: "(char \<Rightarrow> bool) \<Rightarrow> string \<Rightarrow> string" where
  "lstrip_chars P s = dropWhile P s"

definition rstrip_chars :: "(char \<Rightarrow> bool) \<Rightarrow> string \<Rightarrow> string" where
  "rstrip_chars P s = rev (dropWhile P (rev s))"

definition strip_chars :: "(char \<Rightarrow> bool) \<Rightarrow> string \<Rightarrow> string" where
  "strip_chars P s = lstrip_chars P (rstrip_chars P s)"

text \<open>\<open>s.strip()\<close> removes whitespace at both ends; \<open>s.strip('.')\<close> removes dots at both ends.\<close>

definition strip :: "string \<Rightarrow> string" where
  "strip s = strip_chars isspace s"

definition isdot :: "char \<Rightarrow> bool" where
  "isdot c \<longleftrightarrow> c = CHR ''.''"

definition strip_dots :: "string \<Rightarrow> string" where
  "strip_dots s = strip_chars isdot s"

text \<open>\<open>sub in s\<close>: the string \<open>sub\<close> occurs in \<open>s\<close> as a contiguous substring.\<close>

fun contains :: "string \<Rightarrow> string \<Rightarrow> bool" where
  "contains sub [] = (sub = [])"
| "contains sub (c # cs) = (take (length sub) (c # cs) = sub \<or> contains sub cs)"

text \<open>
  \<open>s.split(sep, 1)\<close> when \<open>sep in s\<close>: the parts before and after the leftmost occurrence
  of \<open>sep\<close>; \<open>None\<close> when \<open>sep\<close> does not occur.
\<close>

fun split_once :: "string \<Rightarrow> string \<Rightarrow> (string \<times> string) option" where
  "split_once sep [] = (if sep = [] then Some ([], []) else None)"
| "split_once sep (c # cs) =
     (if take (length sep) (c # cs) = sep then Some ([], drop (length sep) (c # cs))
      else case split_once sep cs of
             None \<Rightarrow> None
           | Some (l, r) \<Rightarrow> Some (c # l, r))"

section \<open>The name sanitizer\<close>

text \<open>The character class \<open>[<>:"/\\|?*]\<close> of \<open>clean_name\<close>.\<close>

definition illegal :: "char \<Rightarrow> bool" where
  "illegal c \<longleftrightarrow> c \<in> set [CHR ''<'', CHR ''>'', CHR '':'', CHR 0x22, CHR ''/'', CHR 0x5C,
     CHR ''|'', CHR ''?'', CHR ''*'']"

text \<open>\<open>re.sub(r'\s+', ' ', name)\<close>: every maximal run of whitespace becomes one space.\<close>

function collapse_ws :: "string \<Rightarrow> string" where
  "collapse_ws [] = []"
| "collapse_ws (c # cs) =
     (if isspace c then CHR '' '' # collapse_ws (dropWhile isspace cs)
      else c # collapse_ws cs)"
  by pat_completeness auto
termination
  by (relation "measure length") (auto simp: le_imp_less_Suc length_dropWhile_le)

text \<open>
  \<open>clean_name\<close>; the argument is \<open>None\<close> for Python's \<open>None\<close>. \<open>not name\<close> holds for
  \<open>None\<close> and for the empty string.
\<close>

definition clean_name :: "string option \<Rightarrow> string" where
  "clean_name name_opt =
     (case name_opt of
        None \<Rightarrow> ''Unknown''
      | Some name \<Rightarrow>
          if name = [] then ''Unknown''
          else
            let name1 = filter (\<lambda>c. \<not> illegal c) name;
                name2 = strip (collapse_ws name1);
                name3 = strip_dots name2
            in if name3 = [] then ''Unknown'' else name3)"

section \<open>Paths\<close>

text \<open>
  A \<open>pathlib.Path\<close> is its tuple of \<open>parts\<close>; paths are taken in the POSIX flavour, where
  a leading part \<open>/\<close> is the root. \<open>name\<close> is the last part; \<open>stem\<close> and \<open>suffix\<close> cut the
  name at its last dot when that dot is neither the first nor the last character
  (pathlib up to Python 3.13).
\<close>

type_synonym path = "string list"

definition path_name :: "path \<Rightarrow> string" where
  "path_name p = (if p = [] \<or> p = [''/''] then [] else last p)"

text \<open>\<open>name.rfind('.')\<close>, with \<open>None\<close> for \<open>-1\<close>.\<close>

definition rfind_dot :: "string \<Rightarrow> nat option" where
  "rfind_dot s =
     (if CHR ''.'' \<in> set s
      then Some (length s - 1 - length (takeWhile (\<lambda>c. c \<noteq> CHR ''.'') (rev s)))
      else None)"

definition stem :: "path \<Rightarrow> string" where
  "stem p =
     (let name = path_name p in
      case rfind_dot name of
        None \<Rightarrow> name
      | Some i \<Rightarrow> if 0 < i \<and> i + 1 < length name then take i name else name)"

definition suffix :: "path \<Rightarrow> string" where
  "suffix p =
     (let name = path_name p in
      case rfind_dot name of
        None \<Rightarrow> []
      | Some i \<Rightarrow> if 0 < i \<and> i + 1 < length name then drop i name else [])"

text \<open>\<open>sep.join(parts)\<close> and \<open>str(path)\<close>.\<close>

fun join :: "string \<Rightarrow> string list \<Rightarrow> string" where
  "join sep [] = []"
| "join sep [x] = x"
| "join sep (x # y # ys) = x @ sep @ join sep (y # ys)"

definition path_str :: "path \<Rightarrow> string" where
  "path_str p =
     (case p of
        [] \<Rightarrow> ''.''
      | r # rest \<Rightarrow> if r = ''/'' then ''/'' @ join ''/'' rest else join ''/'' p)"

section \<open>Resolver helpers\<close>

text \<open>
  \<open>re.sub(r'^\d+\.?\s*[-.]?\s*', '', s)\<close>. Every part after \<open>\d+\<close> may match the empty
  string, so the greedy match is the one taken: all leading digits, one dot if present,
  whitespace, one of \<open>-\<close> and \<open>.\<close> if present, whitespace. Without a leading digit nothing
  matches and the string is unchanged.
\<close>

definition drop_opt :: "(char \<Rightarrow> bool) \<Rightarrow> string \<Rightarrow> string" where
  "drop_opt P s = (case s of [] \<Rightarrow> [] | c # cs \<Rightarrow> if P c then cs else s)"

definition strip_track_number :: "string \<Rightarrow> string" where
  "strip_track_number s =
     (case s of
        [] \<Rightarrow> []
      | c # cs \<Rightarrow>
          if isdecimal c
          then dropWhile isspace
                 (drop_opt (\<lambda>c. c = CHR ''-'' \<or> c = CHR ''.'')
                   (dropWhile isspace (drop_opt isdot (dropWhile isdecimal s))))
          else s)"

text \<open>
  \<open>s.split(sep)\<close> for a non-empty separator: scanning from the left, the string is cut
  at every occurrence of \<open>sep\<close> that does not overlap the previous cut.
\<close>

function split_from :: "string \<Rightarrow> string \<Rightarrow> string \<Rightarrow> string list" where
  "split_from sep cur [] = [cur]"
| "split_from sep cur (c # cs) =
     (if sep \<noteq> [] \<and> take (length sep) (c # cs) = sep
      then cur # split_from sep [] (drop (length sep) (c # cs))
      else split_from sep (cur @ [c]) cs)"
  by pat_completeness auto
termination
  by (relation "measure (\<lambda>(sep, cur, s). length s)") auto

definition split_sep :: "string \<Rightarrow> string \<Rightarrow> string list" where
  "split_sep sep s = split_from sep [] s"

text \<open>\<open>next((i for i, part in enumerate(xs) if P part), -1)\<close>, with \<open>None\<close> for \<open>-1\<close>.\<close>

fun first_index :: "('a \<Rightarrow> bool) \<Rightarrow> 'a list \<Rightarrow> nat option" where
  "first_index P [] = None"
| "first_index P (x # xs) = (if P x then Some 0 else map_option Suc (first_index P xs))"

definition startswith :: "string \<Rightarrow> string \<Rightarrow> bool" where
  "startswith s pre \<longleftrightarrow> take (length pre) s = pre"

text \<open>\<open>if x:\<close> on an optional string: neither \<open>None\<close> nor empty.\<close>

definition truthy :: "string option \<Rightarrow> bool" where
  "truthy x = (case x of None \<Rightarrow> False | Some s \<Rightarrow> s \<noteq> [])"

section \<open>Configuration, environment and run state\<close>

text \<open>
  The options the modelled code reads from \<open>self.config\<close>; the configuration file is taken
  to define each of them.
\<close>

record config =
  cfg_interactive_mode :: bool
  cfg_analyze_quality :: bool
  cfg_find_near_duplicates :: bool
  cfg_skip_folders :: string
  cfg_manual_sort_folder :: string

text \<open>The tuple \<open>(artist, album, title, genre, year, bitrate)\<close> of \<open>read_metadata\<close>.\<close>

type_synonym metadata =
  "string option \<times> string option \<times> string option \<times> string option \<times> string option \<times> int option"

text \<open>The tuple \<open>(artist, album, track, genre, year)\<close> returned by the resolver.\<close>

type_synonym resolved = "string \<times> string \<times> string \<times> string option \<times> string option"

text \<open>
  What the code obtains from outside: the bytes of a file (\<open>None\<close> when opening or reading
  raises), the MD5 hex digest, the tuple of the tag reader, the listing
  \<open>music_path.rglob('*')\<close> with \<open>is_file\<close>, and the answer typed at the preview prompt.
\<close>

record env =
  read_bytes :: "path \<Rightarrow> string option"
  md5_hexdigest :: "string \<Rightarrow> string"
  read_metadata :: "path \<Rightarrow> metadata"
  rglob :: "path list"
  is_file :: "path \<Rightarrow> bool"
  user_response :: string

text \<open>
  \<open>self.stats\<close>: the counters updated by the scan loop, the resolver and the report step
  (the counters of the copy phase and of album art are left out, with those phases).
\<close>

record stats =
  total_files :: int
  duplicates_removed :: int
  near_duplicates_found :: int
  manual_sort :: int
  metadata_parsed :: int

text \<open>
  The organizer object. The two \<open>defaultdict\<close>s that are iterated keep their insertion
  order as association lists; \<open>quality_stats\<close> is only ever indexed.
\<close>

record organizer =
  organized_path :: path
  duplicates :: "string \<rightharpoonup> path"
  near_duplicates :: "(string \<times> path list) list"
  quality_stats :: "string \<Rightarrow> int"
  stats :: stats

text \<open>One entry of \<open>organized_files\<close>.\<close>

record file_info =
  original_path :: path
  artist :: string
  album :: string
  track :: string
  genre :: "string option"
  year :: "string option"
  filename :: string
  target_dir :: path

text \<open>\<open>d[key].append(v)\<close> on a \<open>defaultdict(list)\<close>.\<close>

fun dd_append :: "'k \<Rightarrow> 'v \<Rightarrow> ('k \<times> 'v list) list \<Rightarrow> ('k \<times> 'v list) list" where
  "dd_append key v [] = [(key, [v])]"
| "dd_append key v ((k, vs) # rest) =
     (if k = key then (k, vs @ [v]) # rest else (k, vs) # dd_append key v rest)"

text \<open>\<open>path.parent\<close>: the root is its own parent.\<close>

definition parent :: "path \<Rightarrow> path" where
  "parent p = (if p = [''/''] then p else butlast p)"

definition init_organizer :: "path \<Rightarrow> organizer" where
  "init_organizer music_path =
     \<lparr> organized_path = parent music_path @ [''Music_Organized''],
       duplicates = Map.empty,
       near_duplicates = [],
       quality_stats = (\<lambda>_. 0),
       stats = \<lparr> total_files = 0, duplicates_removed = 0, near_duplicates_found = 0,
                 manual_sort = 0, metadata_parsed = 0 \<rparr> \<rparr>"

section \<open>Content hash\<close>

definition get_file_hash :: "env \<Rightarrow> path \<Rightarrow> string option" where
  "get_file_hash e file_path = map_option (md5_hexdigest e) (read_bytes e file_path)"

section \<open>Quality statistics and near-duplicate groups\<close>

definition analyze_quality :: "config \<Rightarrow> path \<Rightarrow> metadata \<Rightarrow> organizer \<Rightarrow> organizer" where
  "analyze_quality cfg file_path md st =
     (if \<not> cfg_analyze_quality cfg then st
      else
        let (_, _, _, _, _, bitrate) = md;
            format_ext = lower (suffix file_path);
            bump = (\<lambda>k q. q(k := q k + 1));
            q1 = bump (''format_'' @ format_ext) (quality_stats st);
            q2 = (case bitrate of
                    None \<Rightarrow> q1
                  | Some b \<Rightarrow>
                      if b = 0 then q1
                      else if b < 128 then bump ''low_quality'' q1
                      else if b \<ge> 320 then bump ''high_quality'' q1
                      else bump ''medium_quality'' q1)
        in st\<lparr>quality_stats := q2\<rparr>)"

definition check_near_duplicates :: "config \<Rightarrow> path \<Rightarrow> metadata \<Rightarrow> organizer \<Rightarrow> organizer" where
  "check_near_duplicates cfg file_path md st =
     (if \<not> cfg_find_near_duplicates cfg then st
      else
        case md of
          (Some a, _, Some t, _, _, _) \<Rightarrow>
            if a \<noteq> [] \<and> t \<noteq> []
            then st\<lparr>near_duplicates :=
                      dd_append (lower a @ ''_'' @ lower t) file_path (near_duplicates st)\<rparr>
            else st
        | _ \<Rightarrow> st)"

section \<open>The metadata resolver\<close>

definition common_words :: "string list" where
  "common_words = [''the'', ''a'', ''an'', ''and'', ''or'', ''but'', ''in'', ''on'', ''at'',
     ''to'', ''for'', ''of'', ''with'', ''by'', ''they'', ''these'', ''this'',
     ''that'', ''i'', ''you'', ''we'', ''my'', ''your'', ''his'', ''her'']"

definition parse_filename_only :: "path \<Rightarrow> resolved" where
  "parse_filename_only file_path =
     (let filename = stem file_path;
          clean_filename = strip_track_number filename;
          sentinel = (''Manual Sort Needed'', [], clean_name (Some filename), None, None)
      in case (if contains '' - '' clean_filename then split_once '' - '' clean_filename
               else None) of
           None \<Rightarrow> sentinel
         | Some (l, r) \<Rightarrow>
             let potential_artist = strip l;
                 potential_track = strip r
             in if length potential_artist \<ge> 2 \<and> length potential_track \<ge> 2 \<and>
                   lower potential_artist \<notin> set common_words \<and>
                   \<not> isdigit potential_artist
                then (clean_name (Some potential_artist), ''Singles'',
                      clean_name (Some potential_track), None, None)
                else sentinel)"

definition builtin_skip_folders :: "string list" where
  "builtin_skip_folders = [''mp3s'', ''new mp3s'', ''Amazon MP3'', ''Google Music Downloads'',
     ''Converted Music'', ''misc'', ''Various'', ''Unknown Artist'']"

definition parse_from_path :: "config \<Rightarrow> path \<Rightarrow> resolved" where
  "parse_from_path cfg file_path =
     (let path_parts = file_path in
      case first_index (\<lambda>part. part = ''Music'') path_parts of
        None \<Rightarrow> parse_filename_only file_path
      | Some music_index \<Rightarrow>
          let skip_folders = set (split_sep '', '' (cfg_skip_folders cfg))
                               \<union> set builtin_skip_folders;
              dirs_after_music =
                filter (\<lambda>d. d \<notin> skip_folders \<and> \<not> startswith d ''Part'')
                  (butlast (drop (music_index + 1) path_parts))
          in case dirs_after_music of
               [] \<Rightarrow> parse_filename_only file_path
             | a # rest \<Rightarrow>
                 (clean_name (Some a),
                  clean_name (Some (case rest of [] \<Rightarrow> ''Singles'' | b # _ \<Rightarrow> b)),
                  clean_name (Some (strip_track_number (stem file_path))), None, None))"

text \<open>
  \<open>parse_metadata\<close> returns the resolved tuple and the updated organizer. Album art
  extraction is left out: it returns nothing to the resolver and touches only its own
  counter and the output directory.
\<close>

definition parse_metadata :: "config \<Rightarrow> env \<Rightarrow> path \<Rightarrow> organizer \<Rightarrow> resolved \<times> organizer" where
  "parse_metadata cfg e file_path st =
     (let md = read_metadata e file_path;
          (meta_artist, meta_album, meta_title, meta_genre, meta_year, bitrate) = md;
          st1 = analyze_quality cfg file_path md st;
          st2 = check_near_duplicates cfg file_path md st1
      in if truthy meta_artist
            \<and> length (strip (case meta_artist of None \<Rightarrow> [] | Some a \<Rightarrow> a)) > 1
         then ((clean_name meta_artist,
                (if truthy meta_album then clean_name meta_album else ''Singles''),
                (if truthy meta_title then clean_name meta_title
                 else clean_name (Some (stem file_path))),
                meta_genre, meta_year),
               st2\<lparr>stats := (stats st2)\<lparr>metadata_parsed := metadata_parsed (stats st2) + 1\<rparr>\<rparr>)
         else (parse_from_path cfg file_path, st2))"

section \<open>Enumeration, the scan loop and the report step\<close>

definition music_extensions :: "string list" where
  "music_extensions = [''.mp3'', ''.m4a'', ''.flac'', ''.wav'', ''.aac'', ''.ogg'', ''.wma'']"

definition get_all_music_files :: "config \<Rightarrow> env \<Rightarrow> path list" where
  "get_all_music_files cfg e =
     (let skip_folders = split_sep '', '' (cfg_skip_folders cfg) in
      filter (\<lambda>file_path.
                \<not> list_ex (\<lambda>skip. contains skip (path_str file_path)) skip_folders
                \<and> is_file e file_path
                \<and> lower (suffix file_path) \<in> set music_extensions)
        (rglob e))"

type_synonym plan = "(string \<times> file_info list) list"

text \<open>The body of the scan loop of \<open>organize\<close>, for one file.\<close>

definition organize_step :: "config \<Rightarrow> env \<Rightarrow> organizer \<times> plan \<Rightarrow> path \<Rightarrow> organizer \<times> plan" where
  "organize_step cfg e acc file_path =
     (let (st, organized_files) = acc;
          manual_sort_dir = organized_path st @ [cfg_manual_sort_folder cfg];
          st1 = st\<lparr>stats := (stats st)\<lparr>total_files := total_files (stats st) + 1\<rparr>\<rparr>
      in case get_file_hash e file_path of
           None \<Rightarrow> (st1, organized_files)
         | Some file_hash \<Rightarrow>
             if file_hash = [] then (st1, organized_files)
             else if duplicates st1 file_hash \<noteq> None
             then (st1\<lparr>stats := (stats st1)\<lparr>duplicates_removed :=
                                   duplicates_removed (stats st1) + 1\<rparr>\<rparr>,
                   organized_files)
             else
               let st2 = st1\<lparr>duplicates := (duplicates st1)(file_hash \<mapsto> file_path)\<rparr>;
                   ((artist, album, track, genre, year), st3) =
                      parse_metadata cfg e file_path st2;
                   (key, st4, target_dir) =
                      (if artist = ''Manual Sort Needed''
                       then (''Manual Sort Needed/'',
                             st3\<lparr>stats := (stats st3)\<lparr>manual_sort :=
                                            manual_sort (stats st3) + 1\<rparr>\<rparr>,
                             manual_sort_dir)
                       else (artist @ ''/'' @ album, st3,
                             organized_path st3 @ [artist, album]))
               in (st4,
                   dd_append key
                     \<lparr> original_path = file_path, artist = artist, album = album,
                       track = track, genre = genre, year = year,
                       filename = path_name file_path, target_dir = target_dir \<rparr>
                     organized_files))"

definition organize_scan :: "config \<Rightarrow> env \<Rightarrow> path list \<Rightarrow> organizer \<times> plan \<Rightarrow> organizer \<times> plan" where
  "organize_scan cfg e all_files acc = foldl (organize_step cfg e) acc all_files"

text \<open>
  \<open>generate_reports\<close>, as far as it changes the organizer: the loop over
  \<open>self.near_duplicates.items()\<close>.
\<close>

definition report_group :: "organizer \<Rightarrow> string \<times> path list \<Rightarrow> organizer" where
  "report_group st kv =
     (let (key, files) = kv in
      if length files > 1
      then st\<lparr>stats := (stats st)\<lparr>near_duplicates_found :=
                          near_duplicates_found (stats st) + (int (length files) - 1)\<rparr>\<rparr>
      else st)"

definition generate_reports :: "config \<Rightarrow> organizer \<Rightarrow> organizer" where
  "generate_reports cfg st =
     (if cfg_find_near_duplicates cfg then foldl report_group st (near_duplicates st) else st)"

definition interactive_preview :: "config \<Rightarrow> env \<Rightarrow> bool" where
  "interactive_preview cfg e =
     (if \<not> cfg_interactive_mode cfg then True
      else startswith (lower (user_response e)) ''y'')"

text \<open>
  \<open>organize\<close> without its copy phase and playlists: enumerate, scan, ask, report.
\<close>

definition organize :: "config \<Rightarrow> env \<Rightarrow> organizer \<Rightarrow> organizer \<times> plan" where
  "organize cfg e st =
     (let all_files = get_all_music_files cfg e;
          (st1, organized_files) = organize_scan cfg e all_files (st, [])
      in if \<not> interactive_preview cfg e then (st1, organized_files)
         else (generate_reports cfg st1, organized_files))"

section \<open>Notions used in the statements\<close>

text \<open>The source paths held by a placement plan, and those held by near-duplicate groups.\<close>

definition plan_paths :: "plan \<Rightarrow> path list" where
  "plan_paths pl = map original_path (concat (map snd pl))"

definition grouped_paths :: "(string \<times> path list) list \<Rightarrow> path list" where
  "grouped_paths groups = concat (map snd groups)"

text \<open>
  A string whose whitespace is collapsed: every whitespace character in it is a space, and
  no two whitespace characters are adjacent.
\<close>

fun collapsed :: "string \<Rightarrow> bool" where
  "collapsed [] = True"
| "collapsed (c # s) =
     ((if isspace c then c = CHR '' '' \<and> (case s of [] \<Rightarrow> True | d # _ \<Rightarrow> \<not> isspace d)
       else True) \<and> collapsed s)"

section \<open>Example inputs\<close>

text \<open>The default configuration written by \<open>load_config\<close>.\<close>

definition default_config :: config where
  "default_config =
     \<lparr> cfg_interactive_mode = False, cfg_analyze_quality = True,
       cfg_find_near_duplicates = True,
       cfg_skip_folders = ''System Volume Information, $RECYCLE.BIN, .Trash'',
       cfg_manual_sort_folder = ''Manual Sort Needed'' \<rparr>"

text \<open>An environment in which every file has the given tags and readable content.\<close>

definition const_env :: "metadata \<Rightarrow> env" where
  "const_env md =
     \<lparr> read_bytes = (\<lambda>p. Some (path_str p)), md5_hexdigest = (\<lambda>b. b),
       read_metadata = (\<lambda>_. md), rglob = [], is_file = (\<lambda>_. True), user_response = [] \<rparr>"

definition no_tags :: metadata where
  "no_tags = (None, None, None, None, None, None)"

definition queen_tags :: metadata where
  "queen_tags = (Some ''Queen'', Some ''A Night at the Opera'', Some ''Bohemian Rhapsody'',
     None, None, None)"

definition music_root :: path where
  "music_root = [''/'', ''home'', ''u'', ''Music'']"

definition queen_file :: path where
  "queen_file = [''/'', ''home'', ''u'', ''rips'', ''track07.mp3'']"

definition manual_folder_file :: path where
  "manual_folder_file =
     [''/'', ''home'', ''u'', ''Music'', ''Manual Sort Needed'', ''track07.mp3'']"

definition empty_skip_config :: config where
  "empty_skip_config = default_config\<lparr>cfg_skip_folders := []\<rparr>"

definition pink_floyd_file :: path where
  "pink_floyd_file =
     [''/'', ''home'', ''u'', ''Music'', ''Pink Floyd'', ''The Wall'', ''01 - Another Brick.mp3'']"

definition daft_punk_file :: path where
  "daft_punk_file = [''/'', ''home'', ''u'', ''rips'', ''Daft Punk - One More Time.mp3'']"

definition the_something_file :: path where
  "the_something_file = [''/'', ''home'', ''u'', ''rips'', ''The - Something.mp3'']"

definition trash_substring_file :: path where
  "trash_substring_file =
     [''/'', ''home'', ''u'', ''Music'', ''old.Trash'', ''Artist'', ''song.mp3'']"

definition trash_exact_file :: path where
  "trash_exact_file = [''/'', ''home'', ''u'', ''Music'', ''.Trash'', ''Artist'', ''song.mp3'']"

definition plain_file :: path where
  "plain_file = [''/'', ''home'', ''u'', ''Music'', ''Artist'', ''song.mp3'']"

definition trash_env :: env where
  "trash_env =
     (const_env no_tags)\<lparr>rglob := [trash_substring_file, trash_exact_file, plain_file]\<rparr>"

text \<open>
  A batch of four files: the first, second and fourth have the same bytes, the third
  differs; all carry the artist tag \<open>AC/DC\<close>. The digest is a stand-in (the identity).
\<close>

definition file_a :: path where
  "file_a = [''/'', ''home'', ''u'', ''Music'', ''a.mp3'']"

definition file_b :: path where
  "file_b = [''/'', ''home'', ''u'', ''Music'', ''b.mp3'']"

definition file_c :: path where
  "file_c = [''/'', ''home'', ''u'', ''Music'', ''c.mp3'']"

definition file_d :: path where
  "file_d = [''/'', ''home'', ''u'', ''Music'', ''d.mp3'']"

definition acdc_tags :: metadata where
  "acdc_tags = (Some ''AC/DC'', None, Some ''Thunderstruck'', None, None, Some 192)"

definition batch_env :: env where
  "batch_env =
     \<lparr> read_bytes = (\<lambda>p. if p = file_c then Some ''other bytes'' else Some ''same bytes''),
       md5_hexdigest = (\<lambda>b. b),
       read_metadata = (\<lambda>_. acdc_tags),
       rglob = [file_a, file_b, file_c, file_d],
       is_file = (\<lambda>_. True),
       user_response = [] \<rparr>"

definition batch_files :: "path list" where
  "batch_files = [file_a, file_b, file_c, file_d]"

section \<open>The sanitizer as the specification words it\<close>


section \<open>Properties of the sanitizer\<close>

lemmas str_defs = clean_name_def illegal_def strip_def strip_chars_def lstrip_chars_def
  rstrip_chars_def isspace_def strip_dots_def isdot_def

lemma rstrip_chars_last: "rstrip_chars P s \<noteq> [] \<Longrightarrow> \<not> P (last (rstrip_chars P s))"
  unfolding rstrip_chars_def by (simp add: last_rev hd_dropWhile)

lemma clean_name_nonempty: "clean_name x \<noteq> []"
  by (auto simp: clean_name_def Let_def split: option.splits)

lemma clean_name_Singles: "clean_name (Some ''Singles'') = ''Singles''"
  by (simp add: str_defs)

lemma isspace_legal: "isspace c \<Longrightarrow> \<not> illegal c"
  by (auto simp: isspace_def illegal_def)

lemma filter_legal_ws: "\<forall>c\<in>set w. isspace c \<Longrightarrow> filter (\<lambda>c. \<not> illegal c) w = w"
  by (induction w) (auto simp: isspace_legal)

lemma rstrip_all: "\<forall>c\<in>set y. P c \<Longrightarrow> rstrip_chars P y = []"
  by (simp add: rstrip_chars_def)

lemma rstrip_Cons:
  "rstrip_chars P (c # y) =
     (if \<forall>d\<in>set y. P d then (if P c then [] else [c]) else c # rstrip_chars P y)"
  by (auto simp: rstrip_chars_def dropWhile_append)

lemma strip_ws_Cons: "isspace c \<Longrightarrow> strip (c # y) = strip y"
  by (simp add: strip_def strip_chars_def lstrip_chars_def rstrip_Cons rstrip_all)

lemma strip_ws_prepend: "\<forall>c\<in>set w. isspace c \<Longrightarrow> strip (w @ y) = strip y"
  by (induction w) (auto simp: strip_ws_Cons)

lemma strip_ws_append: "\<forall>c\<in>set w. isspace c \<Longrightarrow> strip (y @ w) = strip y"
  using dropWhile_append2[of "rev w" isspace "rev y"]
  by (simp add: strip_def strip_chars_def rstrip_chars_def)

lemma collapse_ws_prepend:
  assumes "\<forall>c\<in>set w. isspace c" and "w \<noteq> []"
  shows "collapse_ws (w @ x) = CHR '' '' # collapse_ws (dropWhile isspace x)"
proof -
  obtain c cs where w: "w = c # cs" using assms(2) by (cases w) auto
  have "dropWhile isspace (cs @ x) = dropWhile isspace x"
    using assms(1) w by simp
  then show ?thesis using assms(1) w by simp
qed

lemma collapse_ws_append:
  assumes "\<forall>c\<in>set w. isspace c"
  shows "\<exists>w'. (\<forall>c\<in>set w'. isspace c) \<and> collapse_ws (x @ w) = collapse_ws x @ w'"
proof (induction x rule: collapse_ws.induct)
  case 1
  show ?case
  proof (cases w)
    case Nil
    then show ?thesis by simp
  next
    case (Cons c cs)
    have "collapse_ws ([] @ w) = collapse_ws [] @ '' ''"
      using collapse_ws_prepend[OF assms, of "[]"] Cons by simp
    moreover have "\<forall>c\<in>set '' ''. isspace c" by (simp add: isspace_def)
    ultimately show ?thesis by blast
  qed
next
  case (2 c cs)
  show ?case
  proof (cases "isspace c")
    case True
    show ?thesis
    proof (cases "\<forall>d\<in>set cs. isspace d")
      case allws: True
      have a: "dropWhile isspace (cs @ w) = []" and b: "dropWhile isspace cs = []"
        using allws assms by simp_all
      have "collapse_ws ((c # cs) @ w) = collapse_ws (c # cs) @ []"
        using True by (simp add: a b del: dropWhile_append2 dropWhile_eq_Nil_conv)
      then show ?thesis by (metis empty_iff list.set(1))
    next
      case False
      then have dw: "dropWhile isspace (cs @ w) = dropWhile isspace cs @ w"
        by (auto simp: dropWhile_append)
      from 2(1)[OF True] obtain w' where w': "\<forall>c\<in>set w'. isspace c"
        "collapse_ws (dropWhile isspace cs @ w) = collapse_ws (dropWhile isspace cs) @ w'"
        by blast
      have "collapse_ws ((c # cs) @ w) = collapse_ws (c # cs) @ w'"
        using True dw w'(2) by simp
      with w'(1) show ?thesis by blast
    qed
  next
    case False
    from 2(2)[OF False] obtain w' where w': "\<forall>c\<in>set w'. isspace c"
      "collapse_ws (cs @ w) = collapse_ws cs @ w'"
      by blast
    have "collapse_ws ((c # cs) @ w) = collapse_ws (c # cs) @ w'"
      using False w'(2) by simp
    with w'(1) show ?thesis by blast
  qed
qed

lemma norm_dropWhile: "strip (collapse_ws (dropWhile isspace x)) = strip (collapse_ws x)"
proof (cases "takeWhile isspace x = []")
  case True
  then have "dropWhile isspace x = x"
    by (metis append_Nil takeWhile_dropWhile_id)
  then show ?thesis by simp
next
  case False
  have ws: "\<forall>c\<in>set (takeWhile isspace x). isspace c"
    by (auto dest: set_takeWhileD)
  have "collapse_ws x = collapse_ws (takeWhile isspace x @ dropWhile isspace x)"
    by simp
  also have "\<dots> = CHR '' '' # collapse_ws (dropWhile isspace (dropWhile isspace x))"
    using collapse_ws_prepend[OF ws False] by blast
  finally have "collapse_ws x = CHR '' '' # collapse_ws (dropWhile isspace x)"
    by simp
  moreover have "isspace (CHR '' '')" by (simp add: isspace_def)
  ultimately show ?thesis by (simp add: strip_ws_Cons)
qed

lemma norm_prepend:
  assumes "\<forall>c\<in>set w. isspace c"
  shows "strip (collapse_ws (w @ x)) = strip (collapse_ws x)"
proof (cases "w = []")
  case True
  then show ?thesis by simp
next
  case False
  have sp: "isspace (CHR '' '')" by (simp add: isspace_def)
  show ?thesis
    unfolding collapse_ws_prepend[OF assms False] strip_ws_Cons[OF sp]
    by (rule norm_dropWhile)
qed

lemma norm_append:
  assumes "\<forall>c\<in>set w. isspace c"
  shows "strip (collapse_ws (x @ w)) = strip (collapse_ws x)"
proof -
  from collapse_ws_append[OF assms, of x] obtain w' where
    "\<forall>c\<in>set w'. isspace c" "collapse_ws (x @ w) = collapse_ws x @ w'"
    by blast
  then show ?thesis by (simp add: strip_ws_append)
qed

lemma collapsed_collapse_ws: "collapsed (collapse_ws s)"
proof (induction s rule: collapse_ws.induct)
  case 1
  show ?case by simp
next
  case (2 c cs)
  show ?case
  proof (cases "isspace c")
    case True
    let ?d = "dropWhile isspace cs"
    have next_ok: "(case collapse_ws ?d of [] \<Rightarrow> True | d # _ \<Rightarrow> \<not> isspace d)"
    proof (cases ?d)
      case Nil
      show ?thesis unfolding Nil by simp
    next
      case (Cons d ds)
      then have "\<not> isspace d"
        by (metis hd_dropWhile list.sel(1) list.distinct(1))
      then show ?thesis unfolding Cons by simp
    qed
    show ?thesis
      using True 2(1)[OF True] next_ok by simp
  next
    case False
    then show ?thesis using 2(2)[OF False] by simp
  qed
qed

lemma collapsed_fix: "collapsed s \<Longrightarrow> collapse_ws s = s"
proof (induction s)
  case Nil
  show ?case by simp
next
  case (Cons c s)
  then have IH: "collapse_ws s = s" by simp
  show ?case
  proof (cases "isspace c")
    case True
    with Cons.prems have c: "c = CHR '' ''" and nx: "s = [] \<or> \<not> isspace (hd s)"
      by (auto split: list.splits)
    from nx have "dropWhile isspace s = s"
      by (cases s) auto
    with True c IH show ?thesis by simp
  next
    case False
    with IH show ?thesis by simp
  qed
qed

lemma collapsed_append: "collapsed (xs @ ys) \<Longrightarrow> collapsed xs \<and> collapsed ys"
proof (induction xs)
  case Nil
  then show ?case by simp
next
  case (Cons c xs)
  then have "collapsed xs \<and> collapsed ys" by simp
  moreover have "(case xs of [] \<Rightarrow> True | d # _ \<Rightarrow> \<not> isspace d)"
    if "isspace c"
    using Cons.prems that by (cases xs) auto
  ultimately show ?case using Cons.prems by auto
qed

lemma strip_chars_decomp:
  "\<exists>w1 w2. (\<forall>c\<in>set w1. P c) \<and> (\<forall>c\<in>set w2. P c) \<and> s = w1 @ strip_chars P s @ w2"
proof -
  let ?r = "rstrip_chars P s"
  let ?w2 = "rev (takeWhile P (rev s))"
  let ?w1 = "takeWhile P ?r"
  have s: "s = ?r @ ?w2"
    unfolding rstrip_chars_def
    by (metis rev_append rev_rev_ident takeWhile_dropWhile_id)
  have r: "?r = ?w1 @ strip_chars P s"
    by (simp add: strip_chars_def lstrip_chars_def)
  have "\<forall>c\<in>set ?w1. P c" "\<forall>c\<in>set ?w2. P c"
    by (auto dest: set_takeWhileD)
  moreover have "s = ?w1 @ strip_chars P s @ ?w2"
    using s r by (metis append.assoc)
  ultimately show ?thesis by blast
qed

lemma collapsed_strip_chars: "collapsed s \<Longrightarrow> collapsed (strip_chars P s)"
  using strip_chars_decomp[of P s] collapsed_append by metis

lemma set_strip_chars: "set (strip_chars P s) \<subseteq> set s"
proof -
  from strip_chars_decomp[of P s] obtain w1 w2 where "s = w1 @ strip_chars P s @ w2"
    by blast
  then have "set s = set w1 \<union> set (strip_chars P s) \<union> set w2"
    by (metis set_append sup_assoc)
  then show ?thesis by blast
qed

lemma set_collapse_ws: "set (collapse_ws s) \<subseteq> insert (CHR '' '') (set s)"
proof (induction s rule: collapse_ws.induct)
  case 1
  show ?case by simp
next
  case (2 c cs)
  show ?case
  proof (cases "isspace c")
    case True
    have "set (dropWhile isspace cs) \<subseteq> set cs"
      by (auto dest: set_dropWhileD)
    with 2(1)[OF True] True show ?thesis by auto
  next
    case False
    with 2(2)[OF False] show ?thesis by auto
  qed
qed

lemma strip_chars_ends:
  assumes "strip_chars P s \<noteq> []"
  shows "\<not> P (hd (strip_chars P s)) \<and> \<not> P (last (strip_chars P s))"
proof -
  let ?r = "rstrip_chars P s"
  have ne: "dropWhile P ?r \<noteq> []"
    using assms by (simp add: strip_chars_def lstrip_chars_def)
  then have rne: "?r \<noteq> []" by auto
  have "\<not> P (hd (dropWhile P ?r))"
    using ne by (rule hd_dropWhile)
  moreover have "last (dropWhile P ?r) = last ?r"
    using ne by (metis last_appendR takeWhile_dropWhile_id)
  moreover have "\<not> P (last ?r)"
    using rne by (rule rstrip_chars_last)
  ultimately show ?thesis
    by (simp add: strip_chars_def lstrip_chars_def)
qed

lemma strip_chars_fix:
  assumes "s \<noteq> []" and "\<not> P (hd s)" and "\<not> P (last s)"
  shows "strip_chars P s = s"
proof -
  have "dropWhile P (rev s) = rev s"
    using assms(1,3) by (simp add: dropWhile_eq_self_iff hd_rev)
  then have "rstrip_chars P s = s"
    by (simp add: rstrip_chars_def)
  moreover have "dropWhile P s = s"
    using assms(2) by (simp add: dropWhile_eq_self_iff)
  ultimately show ?thesis
    by (simp add: strip_chars_def lstrip_chars_def)
qed

lemma length_strip_chars: "length (strip_chars P s) \<le> length s"
proof -
  from strip_chars_decomp[of P s] obtain w1 w2 where "s = w1 @ strip_chars P s @ w2"
    by blast
  then have "length s = length w1 + length (strip_chars P s) + length w2"
    by (metis length_append add.assoc)
  then show ?thesis by simp
qed

lemma clean_name_shape:
  "clean_name x = ''Unknown''
   \<or> (\<exists>s. clean_name x = strip_dots (strip (collapse_ws (filter (\<lambda>c. \<not> illegal c) s)))
          \<and> clean_name x \<noteq> [])"
  by (auto simp: clean_name_def Let_def split: option.splits)

lemma clean_name_legal: "list_all (\<lambda>c. \<not> illegal c) (clean_name x)"
proof -
  have unk: "list_all (\<lambda>c. \<not> illegal c) ''Unknown''"
    by (simp add: illegal_def)
  have sp: "\<not> illegal (CHR '' '')"
    by (simp add: illegal_def)
  have "list_all (\<lambda>c. \<not> illegal c) (strip_dots (strip (collapse_ws (filter (\<lambda>c. \<not> illegal c) s))))"
    for s
  proof -
    let ?f = "filter (\<lambda>c. \<not> illegal c) s"
    have "set (strip_dots (strip (collapse_ws ?f))) \<subseteq> set (collapse_ws ?f)"
      unfolding strip_dots_def strip_def
      using set_strip_chars[of isdot] set_strip_chars[of isspace] by blast
    also have "\<dots> \<subseteq> insert (CHR '' '') (set ?f)"
      by (rule set_collapse_ws)
    finally show ?thesis
      using sp by (auto simp: list_all_iff)
  qed
  with unk clean_name_shape[of x] show ?thesis by auto
qed

lemma clean_name_collapsed: "collapsed (clean_name x)"
proof -
  have unk: "collapsed ''Unknown''"
    by (simp add: isspace_def)
  have "collapsed (strip_dots (strip (collapse_ws s)))" for s
    unfolding strip_dots_def strip_def
    by (intro collapsed_strip_chars collapsed_collapse_ws)
  with unk clean_name_shape[of x] show ?thesis by auto
qed

lemma clean_name_no_dot_ends:
  "\<not> isdot (hd (clean_name x)) \<and> \<not> isdot (last (clean_name x))"
proof -
  have unk: "\<not> isdot (hd ''Unknown'') \<and> \<not> isdot (last ''Unknown'')"
    by (simp add: isdot_def)
  have "\<not> isdot (hd (strip_dots s)) \<and> \<not> isdot (last (strip_dots s))" if "strip_dots s \<noteq> []" for s
    using strip_chars_ends[of isdot s] that by (simp add: strip_dots_def)
  with unk clean_name_shape[of x] show ?thesis by metis
qed

lemma clean_name_strip: "clean_name (Some (strip l)) = clean_name (Some l)"
proof -
  from strip_chars_decomp[of isspace l, folded strip_def] obtain w1 w2 where
    w: "\<forall>c\<in>set w1. isspace c" "\<forall>c\<in>set w2. isspace c" and l: "l = w1 @ strip l @ w2"
    by blast
  let ?f = "filter (\<lambda>c. \<not> illegal c)"
  have "?f l = w1 @ ?f (strip l) @ w2"
    using filter_legal_ws[OF w(1)] filter_legal_ws[OF w(2)] l
    by (metis filter_append)
  then have n: "strip (collapse_ws (?f l)) = strip (collapse_ws (?f (strip l)))"
    using norm_prepend[OF w(1)] norm_append[OF w(2)]
    by (metis append.assoc)
  show ?thesis
  proof (cases "strip l = []")
    case True
    have "strip (collapse_ws (?f (strip l))) = []"
      unfolding True by (simp add: strip_def strip_chars_def lstrip_chars_def rstrip_chars_def)
    with n have "strip (collapse_ws (?f l)) = []"
      by simp
    then show ?thesis
      using True by (simp add: clean_name_def strip_dots_def strip_chars_def lstrip_chars_def rstrip_chars_def)
  next
    case False
    then have "l \<noteq> []"
      by (auto simp: strip_def strip_chars_def lstrip_chars_def rstrip_chars_def)
    with False n show ?thesis
      by (simp add: clean_name_def)
  qed
qed








text \<open>
  Sanitizing a sanitized name changes it exactly when the first result starts or ends with
  whitespace.
\<close>

lemma clean_name_twice:
  "clean_name (Some (clean_name x)) = clean_name x \<longleftrightarrow>
     \<not> isspace (hd (clean_name x)) \<and> \<not> isspace (last (clean_name x))"
proof -
  let ?r = "clean_name x"
  have ne: "?r \<noteq> []" by (rule clean_name_nonempty)
  have f: "filter (\<lambda>c. \<not> illegal c) ?r = ?r"
    using clean_name_legal[of x] by (simp add: list_all_iff)
  have c: "collapse_ws ?r = ?r"
    by (rule collapsed_fix[OF clean_name_collapsed])
  have d: "strip_dots ?r = ?r"
    unfolding strip_dots_def using strip_chars_fix[OF ne] clean_name_no_dot_ends[of x] by blast
  have gen: "clean_name (Some s) =
      (if strip_dots (strip (collapse_ws (filter (\<lambda>c. \<not> illegal c) s))) = [] then ''Unknown''
       else strip_dots (strip (collapse_ws (filter (\<lambda>c. \<not> illegal c) s))))"
    if "s \<noteq> []" for s
    using that by (simp add: clean_name_def Let_def)
  have twice: "clean_name (Some ?r) = (if strip_dots (strip ?r) = [] then ''Unknown''
                                       else strip_dots (strip ?r))"
    using gen[OF ne] unfolding f c .
  show ?thesis
  proof (cases "\<not> isspace (hd ?r) \<and> \<not> isspace (last ?r)")
    case True
    then have "strip ?r = ?r"
      unfolding strip_def using strip_chars_fix[OF ne] by blast
    with twice d ne True show ?thesis by simp
  next
    case False
    have "strip ?r \<noteq> ?r"
    proof
      assume eq: "strip ?r = ?r"
      then have "strip_chars isspace ?r \<noteq> []" using ne by (simp add: strip_def)
      from strip_chars_ends[OF this] eq False show False by (simp add: strip_def)
    qed
    moreover have "length (strip ?r) \<le> length ?r"
      unfolding strip_def by (rule length_strip_chars)
    moreover have "strip ?r = ?r" if "length (strip ?r) = length ?r"
    proof -
      from strip_chars_decomp[of isspace ?r] obtain w1 w2 where
        dd: "?r = w1 @ strip ?r @ w2" by (auto simp: strip_def)
      then have "length ?r = length w1 + length (strip ?r) + length w2"
        by (metis length_append add.assoc)
      with that have "w1 = []" "w2 = []" by simp_all
      with dd show ?thesis by simp
    qed
    ultimately have short: "length (strip ?r) < length ?r"
      by (meson le_neq_implies_less)
    have "length (strip_dots (strip ?r)) \<le> length (strip ?r)"
      unfolding strip_dots_def by (rule length_strip_chars)
    with short have l2: "strip_dots (strip ?r) \<noteq> ?r" by auto
    have "?r \<noteq> ''Unknown''"
      using False by (auto simp: isspace_def)
    with twice l2 False show ?thesis by auto
  qed
qed

text \<open>
  Claim C10 says that sanitizing twice equals sanitizing once. \<open>clean_name\<close> trims
  whitespace before it strips dots, so on \<open>a .\<close> the first pass returns \<open>a\<close> followed by a
  space, and the second pass returns \<open>a\<close>: the two differ.
\<close>

theorem sanitize_not_idempotent:
  "clean_name (Some ''a .'') = ''a '' \<and> clean_name (Some (clean_name (Some ''a .''))) = ''a''"
  by (simp add: str_defs)

section \<open>Properties of the resolver\<close>

lemma parse_filename_only_cases:
  "parse_filename_only fp =
     (''Manual Sort Needed'', [], clean_name (Some (stem fp)), None, None)
   \<or> (\<exists>a t. parse_filename_only fp =
          (clean_name (Some a), ''Singles'', clean_name (Some t), None, None))"
  unfolding parse_filename_only_def Let_def
  by (auto split: option.splits prod.splits)

lemma parse_from_path_cases:
  "parse_from_path cfg fp = parse_filename_only fp
   \<or> (\<exists>a b t. parse_from_path cfg fp =
          (clean_name (Some a), clean_name (Some b), clean_name (Some t), None, None))"
  unfolding parse_from_path_def Let_def
  by (auto split: option.splits list.splits)

lemma parse_metadata_cases:
  "fst (parse_metadata cfg e fp st) =
     (''Manual Sort Needed'', [], clean_name (Some (stem fp)), None, None)
   \<or> (\<exists>a b t g y. fst (parse_metadata cfg e fp st) = (a, b, t, g, y)
          \<and> a \<noteq> [] \<and> b \<noteq> [] \<and> t \<noteq> [])"
proof -
  have pf: "parse_from_path cfg fp =
      (''Manual Sort Needed'', [], clean_name (Some (stem fp)), None, None)
    \<or> (\<exists>a b t g y. parse_from_path cfg fp = (a, b, t, g, y) \<and> a \<noteq> [] \<and> b \<noteq> [] \<and> t \<noteq> [])"
    using parse_from_path_cases[of cfg fp] parse_filename_only_cases[of fp]
    by (auto simp: clean_name_nonempty)
  show ?thesis
  proof (cases "fst (parse_metadata cfg e fp st) = parse_from_path cfg fp")
    case True
    with pf show ?thesis by simp
  next
    case False
    then show ?thesis
      unfolding parse_metadata_def Let_def
      by (auto simp: clean_name_nonempty split: prod.splits if_splits)
  qed
qed

text \<open>
  Claim C1: when the tag artist is present (\<open>Some a\<close>) and longer than one character after
  trimming, the resolver returns the sanitized tag artist, the sanitized tag album if the
  album is present (a tag that is \<open>None\<close> or empty counts as absent, as Python's truth test
  has it) and \<open>Singles\<close> otherwise, the sanitized tag title if present and the sanitized
  stem of the file name otherwise, and the genre and year of the tags unchanged. No lower
  tier is consulted: the result is the same for every configuration, organizer state and
  path with these tags and this stem.
\<close>

theorem tag_tier:
  assumes md: "read_metadata e fp =
                 (Some a, meta_album, meta_title, meta_genre, meta_year, bitrate)"
      and len: "1 < length (strip a)"
  shows "fst (parse_metadata cfg e fp st) =
           (clean_name (Some a),
            (if truthy meta_album then clean_name meta_album else ''Singles''),
            (if truthy meta_title then clean_name meta_title
             else clean_name (Some (stem fp))),
            meta_genre, meta_year)
         \<and> (\<forall>cfg' fp' st'. read_metadata e fp' = read_metadata e fp \<and> stem fp' = stem fp
               \<longrightarrow> fst (parse_metadata cfg' e fp' st') = fst (parse_metadata cfg e fp st))"
proof -
  from len have ne: "a \<noteq> []"
    by (auto simp: str_defs)
  have main: "fst (parse_metadata c e p s) =
           (clean_name (Some a),
            (if truthy meta_album then clean_name meta_album else ''Singles''),
            (if truthy meta_title then clean_name meta_title
             else clean_name (Some (stem p))),
            meta_genre, meta_year)"
    if "read_metadata e p = read_metadata e fp" for c p s
    using that md len ne by (simp add: parse_metadata_def Let_def truthy_def)
  show ?thesis
    using main by simp
qed

text \<open>The example of claim C1: the tags of the Queen track resolve to themselves.\<close>

theorem tag_tier_witness:
  "read_metadata (const_env queen_tags) queen_file =
     (Some ''Queen'', Some ''A Night at the Opera'', Some ''Bohemian Rhapsody'',
      None, None, None)
   \<and> 1 < length (strip ''Queen'')
   \<and> fst (parse_metadata default_config (const_env queen_tags) queen_file
            (init_organizer music_root))
       = (''Queen'', ''A Night at the Opera'', ''Bohemian Rhapsody'', None, None)"
proof -
  have md: "read_metadata (const_env queen_tags) queen_file =
     (Some ''Queen'', Some ''A Night at the Opera'', Some ''Bohemian Rhapsody'',
      None, None, None)"
    by (simp add: const_env_def queen_tags_def)
  have len: "1 < length (strip ''Queen'')"
    by (simp add: str_defs)
  have c1: "clean_name (Some ''Queen'') = ''Queen''"
    by (simp add: str_defs)
  have c2: "clean_name (Some ''A Night at the Opera'') = ''A Night at the Opera''"
    by (simp add: str_defs)
  have c3: "clean_name (Some ''Bohemian Rhapsody'') = ''Bohemian Rhapsody''"
    by (simp add: str_defs)
  from tag_tier[OF md len, where cfg = default_config and st = "init_organizer music_root"]
    md len c1 c2 c3
  show ?thesis
    by (simp add: truthy_def)
qed

text \<open>
  Claim C6, as stated, makes the album empty exactly when the artist is the sentinel. A
  file without tags in a folder named \<open>Manual Sort Needed\<close> below \<open>Music\<close> resolves in the
  path tier to the sentinel string as artist with the album \<open>Singles\<close>.
\<close>

theorem sentinel_iff_counterexample:
  "fst (parse_metadata default_config (const_env no_tags) manual_folder_file
         (init_organizer music_root))
     = (''Manual Sort Needed'', ''Singles'', ''track07'', None, None)"
proof -
  have "parse_from_path default_config manual_folder_file =
          (''Manual Sort Needed'', ''Singles'', ''track07'', None, None)"
    by code_simp
  then show ?thesis
    by (simp add: parse_metadata_def Let_def const_env_def no_tags_def truthy_def)
qed

text \<open>
  Claim C6, amended: for every file and every tag input the resolved artist and track are
  non-empty, and the album is empty only in the sentinel result: if the album is empty,
  the result is the sentinel artist with the sanitized stem as track and no genre or year.
\<close>

theorem resolver_invariant:
  "(case fst (parse_metadata cfg e fp st) of
      (a, b, t, g, y) \<Rightarrow>
        a \<noteq> [] \<and> t \<noteq> [] \<and>
        (b = [] \<longrightarrow> (a, b, t, g, y) =
           (''Manual Sort Needed'', [], clean_name (Some (stem fp)), None, None)))"
  using parse_metadata_cases[of cfg e fp st]
  by (auto simp: clean_name_nonempty)

theorem resolver_invariant_witness:
  "fst (parse_metadata default_config (const_env no_tags) queen_file
         (init_organizer music_root))
     = (''Manual Sort Needed'', [], ''track07'', None, None)"
proof -
  have "parse_from_path default_config queen_file =
          (''Manual Sort Needed'', [], ''track07'', None, None)"
    by code_simp
  then have r: "fst (parse_metadata default_config (const_env no_tags) queen_file
                      (init_organizer music_root))
     = (''Manual Sort Needed'', [], ''track07'', None, None)"
    by (simp add: parse_metadata_def Let_def const_env_def no_tags_def truthy_def)
  have "clean_name (Some (stem queen_file)) = ''track07''"
    by code_simp
  with resolver_invariant[where cfg = default_config and e = "const_env no_tags"
      and fp = queen_file and st = "init_organizer music_root"] r
  show ?thesis
    by simp
qed

lemma split_once_append: "split_once sep s = Some (l, r) \<Longrightarrow> s = l @ sep @ r"
proof (induction s arbitrary: l)
  case Nil
  then show ?case by (simp split: if_splits)
next
  case (Cons c cs)
  show ?case
  proof (cases "take (length sep) (c # cs) = sep")
    case True
    with Cons.prems have "l = []" "r = drop (length sep) (c # cs)" by auto
    with True show ?thesis
      by (metis append_Nil append_take_drop_id)
  next
    case False
    with Cons.prems obtain l' where l': "split_once sep cs = Some (l', r)" "l = c # l'"
      by (auto split: option.splits)
    with Cons.IH[OF l'(1)] show ?thesis by simp
  qed
qed

lemma contains_split_once: "contains sep s \<longleftrightarrow> split_once sep s \<noteq> None"
  by (induction s) (auto split: option.splits)

lemma contains_prefix: "take (length sep) s = sep \<Longrightarrow> contains sep s"
  by (cases s) auto

lemma split_once_leftmost:
  assumes "sep \<noteq> []" and "\<not> contains sep (l @ butlast sep)"
  shows "split_once sep (l @ sep @ r) = Some (l, r)"
  using assms(2)
proof (induction l)
  case Nil
  from assms(1) obtain c cs where s: "sep @ r = c # cs" by (cases sep) auto
  have "take (length sep) (c # cs) = sep" "drop (length sep) (c # cs) = r"
    using s by (metis append_eq_conv_conj)+
  then show ?case using s by simp
next
  case (Cons c l)
  have len: "length sep \<le> length ((c # l) @ butlast sep)"
    using assms(1) by (cases sep rule: rev_cases) auto
  have "(c # l) @ sep @ r = ((c # l) @ butlast sep) @ (last sep # r)"
    using assms(1) by (metis append_butlast_last_id append_Cons append_Nil append_assoc)
  then have "take (length sep) ((c # l) @ sep @ r) = take (length sep) ((c # l) @ butlast sep)"
    using len by (metis append_Nil2 diff_is_0_eq take_0 take_append)
  moreover have "take (length sep) ((c # l) @ butlast sep) \<noteq> sep"
    using Cons.prems contains_prefix by blast
  moreover have "\<not> contains sep (l @ butlast sep)"
    using Cons.prems by simp
  ultimately show ?case using Cons.IH by simp
qed

lemma first_index_found:
  "x \<notin> set pre \<Longrightarrow> first_index (\<lambda>p. p = x) (pre @ x # rest) = Some (length pre)"
  by (induction pre) auto

lemma first_index_absent: "x \<notin> set xs \<Longrightarrow> first_index (\<lambda>p. p = x) xs = None"
  by (induction xs) auto

lemma parse_metadata_fallback:
  assumes md: "read_metadata e fp = (meta_artist, meta_album, meta_title, meta_genre, meta_year, bitrate)"
      and unusable: "\<forall>a. meta_artist = Some a \<longrightarrow> length (strip a) \<le> 1"
  shows "fst (parse_metadata cfg e fp st) = parse_from_path cfg fp"
  using md unusable
  by (cases meta_artist) (auto simp: parse_metadata_def Let_def truthy_def)

text \<open>
  Claim C2: for a file without a usable tag artist (the tag is absent, or at most one
  character long after trimming). If the path is \<open>pre @ Music # mid @ [f]\<close> with no
  \<open>Music\<close> in \<open>pre\<close>, the components \<open>mid\<close> strictly between the first anchor and the file
  are filtered: those in the skip set (the configured entries and the built-in list) and
  those starting with \<open>Part\<close> are dropped. With a survivor, the artist is the sanitized
  first survivor, the album the sanitized second survivor or \<open>Singles\<close>, the track the
  sanitized stem without its track-number prefix. With no survivor, with the anchor as the
  last component, or with no anchor, the result is that of the filename tier.
\<close>

theorem path_tier:
  assumes md: "read_metadata e fp = (meta_artist, meta_album, meta_title, meta_genre, meta_year, bitrate)"
      and unusable: "\<forall>a. meta_artist = Some a \<longrightarrow> length (strip a) \<le> 1"
  shows "(\<forall>pre mid f. fp = pre @ ''Music'' # mid @ [f] \<and> ''Music'' \<notin> set pre \<longrightarrow>
            fst (parse_metadata cfg e fp st) =
              (case filter (\<lambda>d. d \<notin> set (split_sep '', '' (cfg_skip_folders cfg))
                               \<and> d \<notin> set builtin_skip_folders
                               \<and> \<not> startswith d ''Part'') mid of
                 [] \<Rightarrow> parse_filename_only fp
               | a # others \<Rightarrow>
                   (clean_name (Some a),
                    (case others of [] \<Rightarrow> ''Singles'' | b # _ \<Rightarrow> clean_name (Some b)),
                    clean_name (Some (strip_track_number (stem fp))), None, None)))
       \<and> (\<forall>pre. fp = pre @ [''Music''] \<and> ''Music'' \<notin> set pre \<longrightarrow>
            fst (parse_metadata cfg e fp st) = parse_filename_only fp)
       \<and> (''Music'' \<notin> set fp \<longrightarrow> fst (parse_metadata cfg e fp st) = parse_filename_only fp)"
proof -
  note fb = parse_metadata_fallback[OF md unusable, of cfg st]
  have A: "parse_from_path cfg (pre @ ''Music'' # mid @ [f]) =
              (case filter (\<lambda>d. d \<notin> set (split_sep '', '' (cfg_skip_folders cfg))
                               \<and> d \<notin> set builtin_skip_folders
                               \<and> \<not> startswith d ''Part'') mid of
                 [] \<Rightarrow> parse_filename_only (pre @ ''Music'' # mid @ [f])
               | a # others \<Rightarrow>
                   (clean_name (Some a),
                    (case others of [] \<Rightarrow> ''Singles'' | b # _ \<Rightarrow> clean_name (Some b)),
                    clean_name (Some (strip_track_number (stem (pre @ ''Music'' # mid @ [f])))), None, None))"
    if "''Music'' \<notin> set pre" for pre mid f
    using first_index_found[OF that, of "mid @ [f]"]
    by (simp add: parse_from_path_def Let_def clean_name_Singles split: list.splits)
  have B: "parse_from_path cfg (pre @ [''Music'']) = parse_filename_only (pre @ [''Music''])"
    if "''Music'' \<notin> set pre" for pre
    using first_index_found[OF that, of "[]"]
    by (simp add: parse_from_path_def Let_def)
  have C: "parse_from_path cfg fp = parse_filename_only fp" if "''Music'' \<notin> set fp"
    using first_index_absent[OF that] by (simp add: parse_from_path_def Let_def)
  show ?thesis using A B C fb by auto
qed

text \<open>The example of claim C2, with no tags and an empty skip list.\<close>

theorem path_tier_witness:
  "read_metadata (const_env no_tags) pink_floyd_file = (None, None, None, None, None, None)
   \<and> pink_floyd_file = [''/'', ''home'', ''u''] @ ''Music'' # [''Pink Floyd'', ''The Wall'']
                           @ [''01 - Another Brick.mp3'']
   \<and> ''Music'' \<notin> set [''/'', ''home'', ''u'']
   \<and> fst (parse_metadata empty_skip_config (const_env no_tags) pink_floyd_file
            (init_organizer music_root))
       = (''Pink Floyd'', ''The Wall'', ''Another Brick'', None, None)"
proof -
  have md: "read_metadata (const_env no_tags) pink_floyd_file =
              (None, None, None, None, None, None)"
    by (simp add: const_env_def no_tags_def)
  have un: "\<forall>a. (None :: string option) = Some a \<longrightarrow> length (strip a) \<le> 1"
    by simp
  have shape: "pink_floyd_file = [''/'', ''home'', ''u''] @ ''Music'' #
                 [''Pink Floyd'', ''The Wall''] @ [''01 - Another Brick.mp3'']"
    by (simp add: pink_floyd_file_def)
  have anchor: "''Music'' \<notin> set [''/'', ''home'', ''u'']"
    by simp
  have rhs: "(case filter (\<lambda>d. d \<notin> set (split_sep '', '' (cfg_skip_folders empty_skip_config))
                               \<and> d \<notin> set builtin_skip_folders
                               \<and> \<not> startswith d ''Part'') [''Pink Floyd'', ''The Wall''] of
                 [] \<Rightarrow> parse_filename_only pink_floyd_file
               | a # others \<Rightarrow>
                   (clean_name (Some a),
                    (case others of [] \<Rightarrow> ''Singles'' | b # _ \<Rightarrow> clean_name (Some b)),
                    clean_name (Some (strip_track_number (stem pink_floyd_file))), None, None))
             = ((''Pink Floyd'', ''The Wall'', ''Another Brick'', None, None) :: resolved)"
    by code_simp
  note pt = path_tier[OF md un, where cfg = empty_skip_config and st = "init_organizer music_root",
                      THEN conjunct1, rule_format, OF conjI, OF shape anchor]
  from pt rhs md shape anchor show ?thesis
    by (simp only: simp_thms)
qed

text \<open>
  Claim C3: in the filename tier, let \<open>s\<close> be the stem without its track-number prefix. If
  \<open>s\<close> splits at its leftmost \<open> - \<close> into \<open>l\<close> and \<open>r\<close>, the split is accepted exactly when
  both sides trim to at least two characters, the lowercased trimmed left side is no stop
  word and the trimmed left side is not purely numeric; the result is then the sanitized
  sides with the album \<open>Singles\<close> (sanitizing a side and sanitizing the trimmed side give
  the same), and otherwise the sentinel result with the sanitized stem as track. Without a
  separator the result is the sentinel result.
\<close>

theorem filename_tier:
  "(let s = strip_track_number (stem fp);
        sentinel = (''Manual Sort Needed'', [], clean_name (Some (stem fp)), None, None);
        accepted = (\<lambda>left right. 2 \<le> length left \<and> 2 \<le> length right
                        \<and> lower left \<notin> set common_words \<and> \<not> isdigit left)
    in (\<forall>l r. s = l @ '' - '' @ r \<and> \<not> contains '' - '' (l @ '' -'') \<longrightarrow>
          parse_filename_only fp =
            (if accepted (strip l) (strip r)
             then (clean_name (Some (strip l)), ''Singles'', clean_name (Some (strip r)),
                   None, None)
             else sentinel)
          \<and> clean_name (Some (strip l)) = clean_name (Some l)
          \<and> clean_name (Some (strip r)) = clean_name (Some r))
       \<and> (\<not> contains '' - '' s \<longrightarrow> parse_filename_only fp = sentinel))"
proof -
  have "split_once '' - '' (l @ '' - '' @ r) = Some (l, r) \<and> contains '' - '' (l @ '' - '' @ r)"
    if "\<not> contains '' - '' (l @ '' -'')" for l r
  proof -
    have "split_once '' - '' (l @ '' - '' @ r) = Some (l, r)"
      using split_once_leftmost[of "'' - ''" l r] that by simp
    then show ?thesis by (simp add: contains_split_once)
  qed
  then show ?thesis
    unfolding parse_filename_only_def Let_def by (auto simp: clean_name_strip)
qed

text \<open>The two examples of claim C3: an accepted split and the stop-word guard.\<close>

theorem filename_tier_witness:
  "strip_track_number (stem daft_punk_file) = ''Daft Punk'' @ '' - '' @ ''One More Time''
   \<and> \<not> contains '' - '' (''Daft Punk'' @ '' -'')
   \<and> parse_filename_only daft_punk_file = (''Daft Punk'', ''Singles'', ''One More Time'', None, None)
   \<and> strip_track_number (stem the_something_file) = ''The'' @ '' - '' @ ''Something''
   \<and> \<not> contains '' - '' (''The'' @ '' -'')
   \<and> parse_filename_only the_something_file = (''Manual Sort Needed'', [], ''The - Something'', None, None)"
proof -
  have s1: "strip_track_number (stem daft_punk_file) = ''Daft Punk'' @ '' - '' @ ''One More Time''"
    by code_simp
  have n1: "\<not> contains '' - '' (''Daft Punk'' @ '' -'')"
    by simp
  have r1: "(if 2 \<le> length (strip ''Daft Punk'') \<and> 2 \<le> length (strip ''One More Time'')
                \<and> lower (strip ''Daft Punk'') \<notin> set common_words \<and> \<not> isdigit (strip ''Daft Punk'')
             then (clean_name (Some (strip ''Daft Punk'')), ''Singles'',
                   clean_name (Some (strip ''One More Time'')), None, None)
             else (''Manual Sort Needed'', [], clean_name (Some (stem daft_punk_file)), None, None))
            = ((''Daft Punk'', ''Singles'', ''One More Time'', None, None) :: resolved)"
    by code_simp
  have s2: "strip_track_number (stem the_something_file) = ''The'' @ '' - '' @ ''Something''"
    by code_simp
  have n2: "\<not> contains '' - '' (''The'' @ '' -'')"
    by simp
  have r2: "(if 2 \<le> length (strip ''The'') \<and> 2 \<le> length (strip ''Something'')
                \<and> lower (strip ''The'') \<notin> set common_words \<and> \<not> isdigit (strip ''The'')
             then (clean_name (Some (strip ''The'')), ''Singles'',
                   clean_name (Some (strip ''Something'')), None, None)
             else (''Manual Sort Needed'', [], clean_name (Some (stem the_something_file)), None, None))
            = ((''Manual Sort Needed'', [], ''The - Something'', None, None) :: resolved)"
    by code_simp
  note d = filename_tier[of daft_punk_file, unfolded Let_def, THEN conjunct1, rule_format,
                         OF conjI, OF s1 n1, THEN conjunct1]
  note t = filename_tier[of the_something_file, unfolded Let_def, THEN conjunct1, rule_format,
                         OF conjI, OF s2 n2, THEN conjunct1]
  from d r1 t r2 s1 n1 s2 n2 show ?thesis
    by (simp only: simp_thms)
qed

section \<open>Skip folders\<close>

lemma parse_from_path_anchor:
  assumes "''Music'' \<notin> set pre"
  shows "parse_from_path cfg (pre @ ''Music'' # mid @ [f]) =
              (case filter (\<lambda>d. d \<notin> set (split_sep '', '' (cfg_skip_folders cfg))
                               \<and> d \<notin> set builtin_skip_folders
                               \<and> \<not> startswith d ''Part'') mid of
                 [] \<Rightarrow> parse_filename_only (pre @ ''Music'' # mid @ [f])
               | a # others \<Rightarrow>
                   (clean_name (Some a),
                    (case others of [] \<Rightarrow> ''Singles'' | b # _ \<Rightarrow> clean_name (Some b)),
                    clean_name (Some (strip_track_number (stem (pre @ ''Music'' # mid @ [f])))), None, None))"
  using first_index_found[OF assms, of "mid @ [f]"]
  by (simp add: parse_from_path_def Let_def clean_name_Singles split: list.splits)

lemma path_name_snoc: "xs \<noteq> [] \<Longrightarrow> path_name (xs @ [f]) = f"
  by (simp add: path_name_def)

lemma stem_anchor: "stem (pre @ ''Music'' # mid @ [f]) = stem [''Music'', f]"
proof -
  have "path_name (pre @ ''Music'' # mid @ [f]) = f"
    using path_name_snoc[of "pre @ ''Music'' # mid" f] by simp
  moreover have "path_name [''Music'', f] = f"
    using path_name_snoc[of "[''Music'']" f] by simp
  ultimately show ?thesis by (simp add: stem_def)
qed

lemma parse_filename_only_anchor:
  "parse_filename_only (pre @ ''Music'' # mid @ [f]) = parse_filename_only [''Music'', f]"
  by (simp add: parse_filename_only_def stem_anchor)

text \<open>
  Claim C8, as stated, has the path tier drop every component that contains a skip entry
  as a substring. The path tier tests membership in the set of entries: the component
  \<open>old.Trash\<close> contains the configured entry \<open>.Trash\<close> and still becomes the artist.
\<close>

theorem path_tier_substring_counterexample:
  "''.Trash'' \<in> set (split_sep '', '' (cfg_skip_folders default_config))
   \<and> contains ''.Trash'' ''old.Trash''
   \<and> parse_from_path default_config trash_substring_file
        = (''old.Trash'', ''Artist'', ''song'', None, None)"
  by code_simp

text \<open>
  Claim C8, amended: every configured entry (the configured string split at comma-space)
  is applied in both places, in two ways. Enumeration keeps a listed path exactly when no
  entry occurs as a substring of its string, it is a file and its lowercased suffix is a
  music extension. The path tier drops the components between the anchor and the file that
  are equal to an entry (or to a built-in name, or start with \<open>Part\<close>): its result is the
  same as for the path with the components equal to an entry removed.
\<close>

theorem skip_folders_applied:
  "(fp \<in> set (get_all_music_files cfg e) \<longleftrightarrow>
       fp \<in> set (rglob e)
       \<and> \<not> (\<exists>skip \<in> set (split_sep '', '' (cfg_skip_folders cfg)). contains skip (path_str fp))
       \<and> is_file e fp \<and> lower (suffix fp) \<in> set music_extensions)
   \<and> (\<forall>pre mid f. ''Music'' \<notin> set pre \<longrightarrow>
         parse_from_path cfg (pre @ ''Music'' # mid @ [f]) =
           (case filter (\<lambda>d. d \<notin> set (split_sep '', '' (cfg_skip_folders cfg))
                               \<and> d \<notin> set builtin_skip_folders
                               \<and> \<not> startswith d ''Part'') mid of
                 [] \<Rightarrow> parse_filename_only (pre @ ''Music'' # mid @ [f])
               | a # others \<Rightarrow>
                   (clean_name (Some a),
                    (case others of [] \<Rightarrow> ''Singles'' | b # _ \<Rightarrow> clean_name (Some b)),
                    clean_name (Some (strip_track_number (stem (pre @ ''Music'' # mid @ [f])))), None, None))
         \<and> parse_from_path cfg (pre @ ''Music'' # mid @ [f]) =
           parse_from_path cfg
             (pre @ ''Music'' #
                filter (\<lambda>d. d \<notin> set (split_sep '', '' (cfg_skip_folders cfg))) mid @ [f]))"
proof -
  have enum: "fp \<in> set (get_all_music_files cfg e) \<longleftrightarrow>
       fp \<in> set (rglob e)
       \<and> \<not> (\<exists>skip \<in> set (split_sep '', '' (cfg_skip_folders cfg)). contains skip (path_str fp))
       \<and> is_file e fp \<and> lower (suffix fp) \<in> set music_extensions"
    by (auto simp: get_all_music_files_def Let_def list_ex_iff)
  have inv: "parse_from_path cfg (pre @ ''Music'' # mid @ [f]) =
           parse_from_path cfg
             (pre @ ''Music'' #
                filter (\<lambda>d. d \<notin> set (split_sep '', '' (cfg_skip_folders cfg))) mid @ [f])"
    if "''Music'' \<notin> set pre" for pre mid f
  proof -
    let ?E = "set (split_sep '', '' (cfg_skip_folders cfg))"
    have ff: "filter (\<lambda>d. d \<notin> ?E \<and> d \<notin> set builtin_skip_folders \<and> \<not> startswith d ''Part'')
                (filter (\<lambda>d. d \<notin> ?E) mid)
              = filter (\<lambda>d. d \<notin> ?E \<and> d \<notin> set builtin_skip_folders \<and> \<not> startswith d ''Part'') mid"
      by (simp add: conj_commute cong: conj_cong)
    show ?thesis
      unfolding parse_from_path_anchor[OF that] ff
      by (simp add: stem_anchor[of pre] parse_filename_only_anchor[of pre] cong: list.case_cong)
  qed
  show ?thesis
    using enum inv parse_from_path_anchor by blast
qed

theorem skip_folders_applied_witness:
  "plain_file \<in> set (get_all_music_files default_config trash_env)
   \<and> trash_substring_file \<notin> set (get_all_music_files default_config trash_env)
   \<and> trash_exact_file \<notin> set (get_all_music_files default_config trash_env)
   \<and> ''Music'' \<notin> set [''/'', ''home'', ''u'']
   \<and> parse_from_path default_config
        ([''/'', ''home'', ''u''] @ ''Music'' # [''.Trash'', ''Artist''] @ [''song.mp3''])
        = (''Artist'', ''Singles'', ''song'', None, None)"
proof -
  have e1: "plain_file \<in> set (rglob trash_env)
       \<and> \<not> (\<exists>skip \<in> set (split_sep '', '' (cfg_skip_folders default_config)).
               contains skip (path_str plain_file))
       \<and> is_file trash_env plain_file \<and> lower (suffix plain_file) \<in> set music_extensions"
    by code_simp
  have e2: "\<not> (trash_substring_file \<in> set (rglob trash_env)
       \<and> \<not> (\<exists>skip \<in> set (split_sep '', '' (cfg_skip_folders default_config)).
               contains skip (path_str trash_substring_file))
       \<and> is_file trash_env trash_substring_file
       \<and> lower (suffix trash_substring_file) \<in> set music_extensions)"
    by code_simp
  have e3: "\<not> (trash_exact_file \<in> set (rglob trash_env)
       \<and> \<not> (\<exists>skip \<in> set (split_sep '', '' (cfg_skip_folders default_config)).
               contains skip (path_str trash_exact_file))
       \<and> is_file trash_env trash_exact_file
       \<and> lower (suffix trash_exact_file) \<in> set music_extensions)"
    by code_simp
  have anchor: "''Music'' \<notin> set [''/'', ''home'', ''u'']"
    by simp
  have rhs: "parse_from_path default_config
               ([''/'', ''home'', ''u''] @ ''Music'' #
                  filter (\<lambda>d. d \<notin> set (split_sep '', '' (cfg_skip_folders default_config)))
                    [''.Trash'', ''Artist''] @ [''song.mp3''])
             = (''Artist'', ''Singles'', ''song'', None, None)"
    by code_simp
  note en = skip_folders_applied[where cfg = default_config and e = trash_env, THEN conjunct1]
  note pt = skip_folders_applied[where cfg = default_config and e = trash_env and fp = plain_file,
              THEN conjunct2, THEN spec, THEN spec, THEN spec, THEN mp, OF anchor, THEN conjunct2,
              of "[''.Trash'', ''Artist'']" "''song.mp3''"]
  from en[of plain_file] e1 have m1: "plain_file \<in> set (get_all_music_files default_config trash_env)"
    by blast
  from en[of trash_substring_file] e2
  have m2: "trash_substring_file \<notin> set (get_all_music_files default_config trash_env)"
    by blast
  from en[of trash_exact_file] e3
  have m3: "trash_exact_file \<notin> set (get_all_music_files default_config trash_env)"
    by blast
  from pt rhs have m4: "parse_from_path default_config
        ([''/'', ''home'', ''u''] @ ''Music'' # [''.Trash'', ''Artist''] @ [''song.mp3''])
        = (''Artist'', ''Singles'', ''song'', None, None)"
    by (rule trans)
  from m1 m2 m3 anchor m4 show ?thesis
    by (simp only: simp_thms)
qed

section \<open>The scan loop\<close>

lemma analyze_quality_frame:
  "duplicates (analyze_quality cfg fp md st) = duplicates st"
  "near_duplicates (analyze_quality cfg fp md st) = near_duplicates st"
  "stats (analyze_quality cfg fp md st) = stats st"
  "organized_path (analyze_quality cfg fp md st) = organized_path st"
  by (auto simp: analyze_quality_def Let_def split: prod.splits option.splits)

lemma check_near_duplicates_frame:
  "duplicates (check_near_duplicates cfg fp md st) = duplicates st"
  "stats (check_near_duplicates cfg fp md st) = stats st"
  "organized_path (check_near_duplicates cfg fp md st) = organized_path st"
  by (auto simp: check_near_duplicates_def split: prod.splits option.splits)

lemma check_near_duplicates_groups:
  "near_duplicates (check_near_duplicates cfg fp (ma, mb, mt, mg, my, br) st) =
     (if cfg_find_near_duplicates cfg \<and> truthy ma \<and> truthy mt
      then dd_append (lower (case ma of None \<Rightarrow> [] | Some a \<Rightarrow> a) @ ''_'' @
                      lower (case mt of None \<Rightarrow> [] | Some t \<Rightarrow> t)) fp (near_duplicates st)
      else near_duplicates st)"
  by (auto simp: check_near_duplicates_def truthy_def split: option.splits)

lemma parse_metadata_frame:
  "duplicates (snd (parse_metadata cfg e fp st)) = duplicates st"
  "organized_path (snd (parse_metadata cfg e fp st)) = organized_path st"
  "total_files (stats (snd (parse_metadata cfg e fp st))) = total_files (stats st)"
  "duplicates_removed (stats (snd (parse_metadata cfg e fp st))) = duplicates_removed (stats st)"
  "near_duplicates_found (stats (snd (parse_metadata cfg e fp st))) = near_duplicates_found (stats st)"
  "manual_sort (stats (snd (parse_metadata cfg e fp st))) = manual_sort (stats st)"
  by (auto simp: parse_metadata_def Let_def analyze_quality_frame check_near_duplicates_frame
           split: prod.splits)

lemma parse_metadata_groups:
  "near_duplicates (snd (parse_metadata cfg e fp st)) =
     near_duplicates (check_near_duplicates cfg fp (read_metadata e fp) st)"
proof -
  obtain ma mb mt mg my br where md: "read_metadata e fp = (ma, mb, mt, mg, my, br)"
    by (metis prod_cases6)
  show ?thesis
    by (simp add: parse_metadata_def Let_def md check_near_duplicates_groups
          analyze_quality_frame split: prod.splits)
qed

lemma organize_step_unhashable:
  assumes "get_file_hash e fp = None \<or> get_file_hash e fp = Some []"
  shows "organize_step cfg e (st, pl) fp =
           (st\<lparr>stats := (stats st)\<lparr>total_files := total_files (stats st) + 1\<rparr>\<rparr>, pl)"
  using assms by (auto simp: organize_step_def Let_def)

lemma organize_step_duplicate:
  assumes "get_file_hash e fp = Some h" and "h \<noteq> []" and "duplicates st h \<noteq> None"
  shows "organize_step cfg e (st, pl) fp =
           (st\<lparr>stats := (stats st)\<lparr>total_files := total_files (stats st) + 1,
                                    duplicates_removed := duplicates_removed (stats st) + 1\<rparr>\<rparr>, pl)"
  using assms by (auto simp: organize_step_def Let_def)

lemma organize_step_survivor:
  assumes "get_file_hash e fp = Some h" and "h \<noteq> []" and "duplicates st h = None"
  shows "\<exists>st' key info.
           organize_step cfg e (st, pl) fp = (st', dd_append key info pl)
           \<and> original_path info = fp
           \<and> duplicates st' = (duplicates st)(h \<mapsto> fp)
           \<and> near_duplicates st' =
               near_duplicates (check_near_duplicates cfg fp (read_metadata e fp) st)
           \<and> duplicates_removed (stats st') = duplicates_removed (stats st)
           \<and> near_duplicates_found (stats st') = near_duplicates_found (stats st)
           \<and> total_files (stats st') = total_files (stats st) + 1"
proof -
  let ?st2 = "st\<lparr>stats := (stats st)\<lparr>total_files := total_files (stats st) + 1\<rparr>,
                 duplicates := (duplicates st)(h \<mapsto> fp)\<rparr>"
  obtain a b t g y st3 where pm: "parse_metadata cfg e fp ?st2 = ((a, b, t, g, y), st3)"
    by (metis prod_cases5 surj_pair)
  have st3: "st3 = snd (parse_metadata cfg e fp ?st2)" using pm by simp
  have nd: "near_duplicates st3 = near_duplicates (check_near_duplicates cfg fp (read_metadata e fp) st)"
  proof -
    obtain ma mb mt mg my br where md: "read_metadata e fp = (ma, mb, mt, mg, my, br)"
      by (metis prod_cases6)
    show ?thesis
      unfolding st3 parse_metadata_groups md check_near_duplicates_groups by simp
  qed
  let ?manual = "a = ''Manual Sort Needed''"
  let ?key = "if ?manual then ''Manual Sort Needed/'' else a @ ''/'' @ b"
  let ?st4 = "if ?manual
              then st3\<lparr>stats := (stats st3)\<lparr>manual_sort := manual_sort (stats st3) + 1\<rparr>\<rparr>
              else st3"
  let ?dir = "if ?manual then organized_path ?st2 @ [cfg_manual_sort_folder cfg]
              else organized_path st3 @ [a, b]"
  let ?info = "\<lparr> original_path = fp, artist = a, album = b, track = t, genre = g, year = y,
                 filename = path_name fp, target_dir = ?dir \<rparr>"
  have step: "organize_step cfg e (st, pl) fp = (?st4, dd_append ?key ?info pl)"
    using assms pm by (simp add: organize_step_def Let_def)
  note fr = parse_metadata_frame[of cfg e fp ?st2, folded st3]
  have "original_path ?info = fp"
    by simp
  moreover have "duplicates ?st4 = (duplicates st)(h \<mapsto> fp)"
    using fr(1) by simp
  moreover have "near_duplicates ?st4 =
      near_duplicates (check_near_duplicates cfg fp (read_metadata e fp) st)"
    using nd by simp
  moreover have "duplicates_removed (stats ?st4) = duplicates_removed (stats st)"
    using fr(4) by simp
  moreover have "near_duplicates_found (stats ?st4) = near_duplicates_found (stats st)"
    using fr(5) by simp
  moreover have "total_files (stats ?st4) = total_files (stats st) + 1"
    using fr(3) by simp
  ultimately show ?thesis
    using step by blast
qed

lemma set_dd_append:
  "set (concat (map snd (dd_append k v al))) = insert v (set (concat (map snd al)))"
proof (induction al)
  case Nil
  show ?case by simp
next
  case (Cons kv al)
  obtain k' vs where kv: "kv = (k', vs)"
    by (cases kv)
  show ?case
  proof (cases "k' = k")
    case True
    then show ?thesis by (auto simp: kv)
  next
    case False
    have "set (concat (map snd (dd_append k v (kv # al)))) =
            set vs \<union> set (concat (map snd (dd_append k v al)))"
      using False by (simp add: kv)
    also have "\<dots> = set vs \<union> insert v (set (concat (map snd al)))"
      by (simp only: Cons.IH)
    also have "\<dots> = insert v (set (concat (map snd (kv # al))))"
      by (auto simp: kv)
    finally show ?thesis .
  qed
qed

lemma plan_paths_dd_append:
  "set (plan_paths (dd_append k info pl)) = insert (original_path info) (set (plan_paths pl))"
proof -
  have "set (plan_paths (dd_append k info pl)) =
          original_path ` set (concat (map snd (dd_append k info pl)))"
    by (simp add: plan_paths_def)
  also have "\<dots> = insert (original_path info) (original_path ` set (concat (map snd pl)))"
    unfolding set_dd_append by simp
  finally show ?thesis by (simp add: plan_paths_def)
qed

lemma grouped_paths_dd_append:
  "set (grouped_paths (dd_append k v al)) = insert v (set (grouped_paths al))"
  unfolding grouped_paths_def by (rule set_dd_append)

lemma grouped_paths_check:
  "set (grouped_paths (near_duplicates (check_near_duplicates cfg fp md st)))
     \<subseteq> insert fp (set (grouped_paths (near_duplicates st)))"
proof -
  obtain ma mb mt mg my br where md: "md = (ma, mb, mt, mg, my, br)"
    by (metis prod_cases6)
  show ?thesis
    unfolding md check_near_duplicates_groups
    by (auto simp: grouped_paths_dd_append)
qed

lemma organize_scan_snoc:
  "organize_scan cfg e (xs @ [x]) acc = organize_step cfg e (organize_scan cfg e xs acc) x"
  by (simp add: organize_scan_def)

lemma find_snoc:
  "find P (xs @ [x]) = (case find P xs of Some y \<Rightarrow> Some y | None \<Rightarrow> if P x then Some x else None)"
  by (induction xs) auto

text \<open>The state of the scan after a list of files, from an empty index and plan.\<close>

lemma scan_invariant:
  assumes "duplicates st0 = Map.empty"
      and "organize_scan cfg e xs (st0, []) = (s, p)"
  shows "duplicates s =
           (\<lambda>h. if h = [] then None else find (\<lambda>f. get_file_hash e f = Some h) xs)
         \<and> set (plan_paths p) = ran (duplicates s)
         \<and> set (grouped_paths (near_duplicates s))
               \<subseteq> set (grouped_paths (near_duplicates st0)) \<union> ran (duplicates s)
         \<and> near_duplicates_found (stats s) = near_duplicates_found (stats st0)"
  using assms(2)
proof (induction xs arbitrary: s p rule: rev_induct)
  case Nil
  then show ?case
    using assms(1) by (auto simp: organize_scan_def plan_paths_def)
next
  case (snoc x xs)
  obtain s1 p1 where prev: "organize_scan cfg e xs (st0, []) = (s1, p1)"
    by (metis surj_pair)
  note IH = snoc.IH[OF prev]
  from IH have IH2: "set (plan_paths p1) = ran (duplicates s1)"
    and IH3: "set (grouped_paths (near_duplicates s1))
                \<subseteq> set (grouped_paths (near_duplicates st0)) \<union> ran (duplicates s1)"
    and IH4: "near_duplicates_found (stats s1) = near_duplicates_found (stats st0)"
    by blast+
  from snoc.prems prev have step: "organize_step cfg e (s1, p1) x = (s, p)"
    by (simp add: organize_scan_snoc)
  let ?F = "\<lambda>ys h. if h = [] then None else find (\<lambda>f. get_file_hash e f = Some h) ys"
  have d1: "duplicates s1 = ?F xs" using IH by simp
  consider (unhash) "get_file_hash e x = None \<or> get_file_hash e x = Some []"
    | (dup) h where "get_file_hash e x = Some h" "h \<noteq> []" "duplicates s1 h \<noteq> None"
    | (new) h where "get_file_hash e x = Some h" "h \<noteq> []" "duplicates s1 h = None"
    by (cases "get_file_hash e x") auto
  then show ?case
  proof cases
    case unhash
    from step organize_step_unhashable[OF unhash, of cfg s1 p1]
    have eq: "duplicates s = duplicates s1" "near_duplicates s = near_duplicates s1" "p = p1"
      "near_duplicates_found (stats s) = near_duplicates_found (stats s1)"
      by auto
    have "?F (xs @ [x]) = ?F xs"
      using unhash by (auto simp: find_snoc fun_eq_iff split: option.splits)
    then have "duplicates s = ?F (xs @ [x])"
      using d1 eq(1) by (simp only:)
    moreover have "set (plan_paths p) = ran (duplicates s)"
      unfolding eq(1,3) by (rule IH2)
    moreover have "set (grouped_paths (near_duplicates s))
                     \<subseteq> set (grouped_paths (near_duplicates st0)) \<union> ran (duplicates s)"
      unfolding eq(1,2) by (rule IH3)
    moreover have "near_duplicates_found (stats s) = near_duplicates_found (stats st0)"
      using eq(4) IH4 by simp
    ultimately show ?thesis by (intro conjI)
  next
    case dup
    from step organize_step_duplicate[OF dup, of cfg p1]
    have eq: "duplicates s = duplicates s1" "near_duplicates s = near_duplicates s1" "p = p1"
      "near_duplicates_found (stats s) = near_duplicates_found (stats s1)"
      by auto
    have "?F (xs @ [x]) = ?F xs"
    proof
      fix h'
      show "?F (xs @ [x]) h' = ?F xs h'"
        using dup d1 by (auto simp: find_snoc split: option.splits)
    qed
    then have "duplicates s = ?F (xs @ [x])"
      using d1 eq(1) by (simp only:)
    moreover have "set (plan_paths p) = ran (duplicates s)"
      unfolding eq(1,3) by (rule IH2)
    moreover have "set (grouped_paths (near_duplicates s))
                     \<subseteq> set (grouped_paths (near_duplicates st0)) \<union> ran (duplicates s)"
      unfolding eq(1,2) by (rule IH3)
    moreover have "near_duplicates_found (stats s) = near_duplicates_found (stats st0)"
      using eq(4) IH4 by simp
    ultimately show ?thesis by (intro conjI)
  next
    case new
    from organize_step_survivor[OF new, of cfg p1] step
    obtain key info where
      p: "p = dd_append key info p1" and op: "original_path info = x"
      and ds: "duplicates s = (duplicates s1)(h \<mapsto> x)"
      and nd: "near_duplicates s = near_duplicates (check_near_duplicates cfg x (read_metadata e x) s1)"
      and nf: "near_duplicates_found (stats s) = near_duplicates_found (stats s1)"
      by auto
    have F: "?F (xs @ [x]) = (?F xs)(h \<mapsto> x)"
    proof
      fix h'
      show "?F (xs @ [x]) h' = ((?F xs)(h \<mapsto> x)) h'"
        using new d1 by (auto simp: find_snoc fun_eq_iff split: option.splits if_splits)
    qed
    have ran: "ran (duplicates s) = insert x (ran (duplicates s1))"
      unfolding ds using new(3) by simp
    have "set (plan_paths p) = ran (duplicates s)"
      unfolding p plan_paths_dd_append op ran using IH2 by simp
    moreover have "near_duplicates_found (stats s) = near_duplicates_found (stats st0)"
      using nf IH4 by simp
    moreover have "set (grouped_paths (near_duplicates s))
                     \<subseteq> set (grouped_paths (near_duplicates st0)) \<union> ran (duplicates s)"
      unfolding nd ran using grouped_paths_check[of cfg x "read_metadata e x" s1] IH3 by auto
    moreover have "duplicates s = ?F (xs @ [x])"
      unfolding ds F d1 ..
    ultimately show ?thesis by (intro conjI)
  qed
qed

lemma organize_scan_split:
  assumes "j < length files"
  shows "organize_scan cfg e files acc =
           organize_scan cfg e (drop (Suc j) files)
             (organize_step cfg e (organize_scan cfg e (take j files) acc) (files ! j))"
proof -
  have "files = take j files @ files ! j # drop (Suc j) files"
    using assms by (rule id_take_nth_drop)
  then have "organize_scan cfg e files acc =
      organize_scan cfg e (take j files @ files ! j # drop (Suc j) files) acc"
    by simp
  then show ?thesis
    by (simp add: organize_scan_def)
qed

lemma first_recorded:
  assumes inv: "duplicates s =
           (\<lambda>h. if h = [] then None else find (\<lambda>f. get_file_hash e f = Some h) xs)"
      and "h \<noteq> []" and "i < length xs" and "get_file_hash e (xs ! i) = Some h"
  shows "\<exists>k\<le>i. duplicates s h = Some (xs ! k) \<and> get_file_hash e (xs ! k) = Some h
           \<and> (\<forall>k'<k. get_file_hash e (xs ! k') \<noteq> Some h)"
proof -
  let ?P = "\<lambda>f. get_file_hash e f = Some h"
  have "xs ! i \<in> set xs"
    using assms(3) by simp
  then have "find ?P xs \<noteq> None"
    using assms(4) unfolding find_None_iff by blast
  then obtain x where fx: "find ?P xs = Some x" by auto
  then obtain k where k: "k < length xs" "?P (xs ! k)" "x = xs ! k" "\<forall>k'<k. \<not> ?P (xs ! k')"
    unfolding find_Some_iff by blast
  have "k \<le> i"
    using k(4) assms(4) by (meson not_le_imp_less)
  moreover have "duplicates s h = Some (xs ! k)"
    using inv assms(2) fx k(3) by simp
  ultimately show ?thesis using k by blast
qed

lemma recorded_is_first:
  assumes inv: "duplicates s =
           (\<lambda>h. if h = [] then None else find (\<lambda>f. get_file_hash e f = Some h) xs)"
      and "duplicates s h = Some x"
  shows "h \<noteq> [] \<and> (\<exists>k<length xs. x = xs ! k \<and> get_file_hash e (xs ! k) = Some h
           \<and> (\<forall>k'<k. get_file_hash e (xs ! k') \<noteq> Some h))"
proof -
  from assms have ne: "h \<noteq> []" by (auto split: if_splits)
  with assms have "find (\<lambda>f. get_file_hash e f = Some h) xs = Some x" by simp
  then show ?thesis
    unfolding find_Some_iff using ne by blast
qed

lemma skipped_not_recorded:
  assumes dist: "distinct xs"
      and inv: "duplicates s =
           (\<lambda>h. if h = [] then None else find (\<lambda>f. get_file_hash e f = Some h) xs)"
      and j: "j < length xs"
      and skipped: "get_file_hash e (xs ! j) = None \<or> get_file_hash e (xs ! j) = Some []
                    \<or> (\<exists>i<j. get_file_hash e (xs ! i) = get_file_hash e (xs ! j))"
  shows "xs ! j \<notin> ran (duplicates s)"
proof
  assume "xs ! j \<in> ran (duplicates s)"
  then obtain h where h: "duplicates s h = Some (xs ! j)"
    by (auto simp: ran_def)
  from recorded_is_first[OF inv h] obtain k where
    ne: "h \<noteq> []" and k: "k < length xs" "xs ! j = xs ! k"
    "get_file_hash e (xs ! k) = Some h" "\<forall>k'<k. get_file_hash e (xs ! k') \<noteq> Some h"
    by blast
  from dist j k(1,2) have kj: "k = j"
    by (simp add: nth_eq_iff_index_eq)
  from skipped k(3,4) ne show False
    unfolding kj by auto
qed

lemma report_groups_counter:
  "near_duplicates_found (stats (foldl report_group st groups)) =
     near_duplicates_found (stats st)
       + sum_list (map (\<lambda>ps. int (length ps) - 1) (filter (\<lambda>ps. 1 < length ps) (map snd groups)))"
proof (induction groups arbitrary: st)
  case Nil
  show ?case by simp
next
  case (Cons kv groups)
  obtain k ps where kv: "kv = (k, ps)" by (cases kv)
  have step: "near_duplicates_found (stats (report_group st (k, ps))) =
                near_duplicates_found (stats st) + (if 1 < length ps then int (length ps) - 1 else 0)"
    by (simp add: report_group_def)
  show ?case
    by (simp add: Cons.IH kv step)
qed

lemma generate_reports_counter:
  "near_duplicates_found (stats (generate_reports cfg st)) =
     near_duplicates_found (stats st)
       + (if cfg_find_near_duplicates cfg
          then sum_list (map (\<lambda>ps. int (length ps) - 1)
                          (filter (\<lambda>ps. 1 < length ps) (map snd (near_duplicates st))))
          else 0)"
  by (simp add: generate_reports_def report_groups_counter)

lemma map_of_dd_append:
  "map_of (dd_append key v groups) =
     (map_of groups)(key \<mapsto> (case map_of groups key of None \<Rightarrow> [] | Some vs \<Rightarrow> vs) @ [v])"
  by (induction key v groups rule: dd_append.induct) (auto simp: fun_eq_iff)

lemma keys_dd_append:
  "map fst (dd_append key v groups) =
     (if key \<in> set (map fst groups) then map fst groups else map fst groups @ [key])"
  by (induction key v groups rule: dd_append.induct) auto

text \<open>
  Claim C5: in a run over distinct paths that starts with an empty duplicate index and an
  empty plan, let the files at positions \<open>i < j\<close> be readable with the same bytes \<open>b\<close>
  (and a non-empty digest). Both have the same hash. When the loop reaches file \<open>j\<close> its
  step only adds one to \<open>total_files\<close> and one to \<open>duplicates_removed\<close>: the index, the
  plan and everything else are unchanged. After the run file \<open>j\<close> is absent from the plan,
  and the index maps the hash to the first enumerated file with that hash, which is in
  the plan.
\<close>

theorem exact_duplicates:
  assumes dist: "distinct files"
      and empty: "duplicates st0 = Map.empty"
      and ij: "i < j" "j < length files"
      and bi: "read_bytes e (files ! i) = Some b"
      and bj: "read_bytes e (files ! j) = Some b"
      and ne: "md5_hexdigest e b \<noteq> []"
  shows "get_file_hash e (files ! i) = get_file_hash e (files ! j)
    \<and> (case organize_scan cfg e (take j files) (st0, []) of
          (s, p) \<Rightarrow>
            organize_step cfg e (s, p) (files ! j) =
              (s\<lparr>stats := (stats s)\<lparr>total_files := total_files (stats s) + 1,
                    duplicates_removed := duplicates_removed (stats s) + 1\<rparr>\<rparr>, p))
    \<and> (case organize_scan cfg e files (st0, []) of
          (st', plan') \<Rightarrow>
            files ! j \<notin> set (plan_paths plan')
            \<and> (\<exists>k\<le>i. duplicates st' (md5_hexdigest e b) = Some (files ! k)
                      \<and> files ! k \<in> set (plan_paths plan')
                      \<and> (\<forall>k'<k. get_file_hash e (files ! k') \<noteq> Some (md5_hexdigest e b))))"
proof -
  let ?h = "md5_hexdigest e b"
  have hi: "get_file_hash e (files ! i) = Some ?h" and hj: "get_file_hash e (files ! j) = Some ?h"
    using bi bj by (simp_all add: get_file_hash_def)
  have A: "get_file_hash e (files ! i) = get_file_hash e (files ! j)"
    using hi hj by simp
  obtain s p where before: "organize_scan cfg e (take j files) (st0, []) = (s, p)"
    by (metis surj_pair)
  have i': "i < length (take j files)" "take j files ! i = files ! i"
    using ij by simp_all
  from first_recorded[OF scan_invariant[OF empty before, THEN conjunct1] ne i'(1)] hi i'(2)
  have "duplicates s ?h \<noteq> None" by auto
  from organize_step_duplicate[OF hj ne this, of cfg p] before
  have B: "(case organize_scan cfg e (take j files) (st0, []) of
          (s, p) \<Rightarrow>
            organize_step cfg e (s, p) (files ! j) =
              (s\<lparr>stats := (stats s)\<lparr>total_files := total_files (stats s) + 1,
                    duplicates_removed := duplicates_removed (stats s) + 1\<rparr>\<rparr>, p))"
    by simp
  obtain st' plan' where run: "organize_scan cfg e files (st0, []) = (st', plan')"
    by (metis surj_pair)
  note inv = scan_invariant[OF empty run]
  from inv have d: "duplicates st' =
      (\<lambda>h. if h = [] then None else find (\<lambda>f. get_file_hash e f = Some h) files)"
    and pp: "set (plan_paths plan') = ran (duplicates st')"
    by blast+
  have il: "i < length files" using ij by simp
  from first_recorded[OF d ne il hi] obtain k where
    k: "k \<le> i" "duplicates st' ?h = Some (files ! k)"
       "\<forall>k'<k. get_file_hash e (files ! k') \<noteq> Some ?h"
    by blast
  have placed: "files ! k \<in> set (plan_paths plan')"
    unfolding pp using k(2) by (auto simp: ran_def)
  have "\<exists>i<j. get_file_hash e (files ! i) = get_file_hash e (files ! j)"
    using ij(1) A by blast
  then have "files ! j \<notin> ran (duplicates st')"
    using skipped_not_recorded[OF dist d ij(2)] by blast
  then have absent: "files ! j \<notin> set (plan_paths plan')"
    unfolding pp .
  have C: "(case organize_scan cfg e files (st0, []) of
          (st', plan') \<Rightarrow>
            files ! j \<notin> set (plan_paths plan')
            \<and> (\<exists>k\<le>i. duplicates st' ?h = Some (files ! k)
                      \<and> files ! k \<in> set (plan_paths plan')
                      \<and> (\<forall>k'<k. get_file_hash e (files ! k') \<noteq> Some ?h)))"
    unfolding run using absent k placed by auto
  from A B C show ?thesis by (intro conjI)
qed

theorem exact_duplicates_witness:
  "distinct batch_files
   \<and> duplicates (init_organizer music_root) = Map.empty
   \<and> (0::nat) < 3 \<and> 3 < length batch_files
   \<and> read_bytes batch_env (batch_files ! 0) = Some ''same bytes''
   \<and> read_bytes batch_env (batch_files ! 3) = Some ''same bytes''
   \<and> md5_hexdigest batch_env ''same bytes'' \<noteq> []
   \<and> get_file_hash batch_env (batch_files ! 0) = get_file_hash batch_env (batch_files ! 3)
   \<and> batch_files ! 3 \<notin> set (plan_paths (snd (organize_scan default_config batch_env batch_files
                                   (init_organizer music_root, []))))
   \<and> plan_paths (snd (organize_scan default_config batch_env batch_files
                        (init_organizer music_root, []))) = [file_a, file_c]
   \<and> duplicates (fst (organize_scan default_config batch_env batch_files
                        (init_organizer music_root, []))) ''same bytes'' = Some file_a
   \<and> duplicates_removed (stats (fst (organize_scan default_config batch_env batch_files
                        (init_organizer music_root, [])))) = 2"
proof -
  have h1: "distinct batch_files"
    by code_simp
  have h2: "duplicates (init_organizer music_root) = Map.empty"
    by (simp add: init_organizer_def)
  have h3: "(0::nat) < 3" and h4: "3 < length batch_files"
    by (simp_all add: batch_files_def)
  have h5: "read_bytes batch_env (batch_files ! 0) = Some ''same bytes''"
    by code_simp
  have h6: "read_bytes batch_env (batch_files ! 3) = Some ''same bytes''"
    by code_simp
  have h7: "md5_hexdigest batch_env ''same bytes'' \<noteq> []"
    by (simp add: batch_env_def)
  note t = exact_duplicates[OF h1 h2 h3 h4 h5 h6 h7, where cfg = default_config]
  have c1: "get_file_hash batch_env (batch_files ! 0) = get_file_hash batch_env (batch_files ! 3)"
    using t by (rule conjunct1)
  have c2: "batch_files ! 3 \<notin> set (plan_paths (snd (organize_scan default_config batch_env
              batch_files (init_organizer music_root, []))))"
    using t[THEN conjunct2, THEN conjunct2] by (simp add: case_prod_beta)
  have v1: "plan_paths (snd (organize_scan default_config batch_env batch_files
                        (init_organizer music_root, []))) = [file_a, file_c]"
    by code_simp
  have v2: "duplicates (fst (organize_scan default_config batch_env batch_files
                        (init_organizer music_root, []))) ''same bytes'' = Some file_a"
    by code_simp
  have v3: "duplicates_removed (stats (fst (organize_scan default_config batch_env batch_files
                        (init_organizer music_root, [])))) = 2"
    by code_simp
  from h1 h2 h3 h4 h5 h6 h7 c1 c2 v1 v2 v3 show ?thesis
    by (intro conjI)
qed

text \<open>
  Claim C7, as stated, keys the groups by the resolved artist and title. The key is built
  by \<open>check_near_duplicates\<close> from the raw tags, before resolution: the tags \<open>AC/DC\<close> and
  \<open>Thunderstruck\<close> resolve to the artist \<open>ACDC\<close> but are grouped under \<open>ac/dc_thunderstruck\<close>,
  and an untagged file that the path tier resolves joins no group at all.
\<close>

theorem near_duplicate_key_counterexample:
  "fst (parse_metadata default_config batch_env file_a (init_organizer music_root))
     = (''ACDC'', ''Singles'', ''Thunderstruck'', None, None)
   \<and> near_duplicates (snd (parse_metadata default_config batch_env file_a
                            (init_organizer music_root)))
     = [(''ac/dc_thunderstruck'', [file_a])]
   \<and> lower ''ACDC'' @ ''_'' @ lower ''Thunderstruck'' \<noteq> ''ac/dc_thunderstruck''
   \<and> fst (parse_metadata default_config (const_env no_tags) pink_floyd_file
            (init_organizer music_root))
     = (''Pink Floyd'', ''The Wall'', ''Another Brick'', None, None)
   \<and> near_duplicates (snd (parse_metadata default_config (const_env no_tags) pink_floyd_file
                            (init_organizer music_root))) = []"
  by code_simp

text \<open>
  Claim C7, amended: when near-duplicate detection is enabled and the raw tag artist and
  raw tag title are both non-empty, resolving a file appends its path to the group keyed by
  the lowercased raw artist, an underscore and the lowercased raw title; otherwise the
  groups are unchanged. Appending extends the list of an existing key at its end and adds a
  new key after the existing ones. The report step adds, when detection is enabled,
  \<open>count - 1\<close> to \<open>near_duplicates_found\<close> for exactly the groups longer than one.
\<close>

theorem near_duplicate_groups:
  "(\<forall>a t mb mg my br.
       read_metadata e fp = (Some a, mb, Some t, mg, my, br) \<and> a \<noteq> [] \<and> t \<noteq> []
       \<and> cfg_find_near_duplicates cfg \<longrightarrow>
       near_duplicates (snd (parse_metadata cfg e fp st)) =
         dd_append (lower a @ ''_'' @ lower t) fp (near_duplicates st))
   \<and> (\<forall>ma mb mt mg my br.
       read_metadata e fp = (ma, mb, mt, mg, my, br)
       \<and> (\<not> truthy ma \<or> \<not> truthy mt \<or> \<not> cfg_find_near_duplicates cfg) \<longrightarrow>
       near_duplicates (snd (parse_metadata cfg e fp st)) = near_duplicates st)
   \<and> map_of (dd_append key fp groups) =
       (map_of groups)(key \<mapsto> (case map_of groups key of None \<Rightarrow> [] | Some ps \<Rightarrow> ps) @ [fp])
   \<and> map fst (dd_append key fp groups) =
       (if key \<in> set (map fst groups) then map fst groups else map fst groups @ [key])
   \<and> near_duplicates_found (stats (generate_reports cfg st)) =
       near_duplicates_found (stats st)
         + (if cfg_find_near_duplicates cfg
            then sum_list (map (\<lambda>ps. int (length ps) - 1)
                            (filter (\<lambda>ps. 1 < length ps) (map snd (near_duplicates st))))
            else 0)"
proof -
  have A: "near_duplicates (snd (parse_metadata cfg e fp st)) =
         dd_append (lower a @ ''_'' @ lower t) fp (near_duplicates st)"
    if "read_metadata e fp = (Some a, mb, Some t, mg, my, br)" "a \<noteq> []" "t \<noteq> []"
       "cfg_find_near_duplicates cfg" for a t mb mg my br
    unfolding parse_metadata_groups that(1) check_near_duplicates_groups
    using that by (simp add: truthy_def)
  have B: "near_duplicates (snd (parse_metadata cfg e fp st)) = near_duplicates st"
    if "read_metadata e fp = (ma, mb, mt, mg, my, br)"
       "\<not> truthy ma \<or> \<not> truthy mt \<or> \<not> cfg_find_near_duplicates cfg" for ma mb mt mg my br
    unfolding parse_metadata_groups that(1) check_near_duplicates_groups
    using that(2) by auto
  show ?thesis
    using A B map_of_dd_append[of key fp groups] keys_dd_append[of key fp groups]
      generate_reports_counter[of cfg st]
    by blast
qed

theorem near_duplicate_groups_witness:
  "read_metadata batch_env file_a =
     (Some ''AC/DC'', None, Some ''Thunderstruck'', None, None, Some 192)
   \<and> ''AC/DC'' \<noteq> [] \<and> ''Thunderstruck'' \<noteq> []
   \<and> cfg_find_near_duplicates default_config
   \<and> near_duplicates (snd (parse_metadata default_config batch_env file_a
                            (init_organizer music_root)))
       = [(''ac/dc_thunderstruck'', [file_a])]
   \<and> near_duplicates_found (stats (generate_reports default_config
         (fst (organize_scan default_config batch_env batch_files
                 (init_organizer music_root, []))))) = 1"
proof -
  let ?run = "fst (organize_scan default_config batch_env batch_files
                     (init_organizer music_root, []))"
  have md: "read_metadata batch_env file_a =
     (Some ''AC/DC'', None, Some ''Thunderstruck'', None, None, Some 192)"
    by (simp add: batch_env_def acdc_tags_def)
  have ne: "''AC/DC'' \<noteq> []" "''Thunderstruck'' \<noteq> []"
    by simp_all
  have on: "cfg_find_near_duplicates default_config"
    by (simp add: default_config_def)
  note t = near_duplicate_groups[where cfg = default_config and e = batch_env and fp = file_a]
  have key: "dd_append (lower ''AC/DC'' @ ''_'' @ lower ''Thunderstruck'') file_a
               (near_duplicates (init_organizer music_root))
             = [(''ac/dc_thunderstruck'', [file_a])]"
    by code_simp
  have g: "near_duplicates (snd (parse_metadata default_config batch_env file_a
                            (init_organizer music_root)))
       = [(''ac/dc_thunderstruck'', [file_a])]"
    using t[where st = "init_organizer music_root", THEN conjunct1, THEN spec, THEN spec,
            THEN spec, THEN spec, THEN spec, THEN spec, THEN mp, OF conjI, OF md,
            OF conjI, OF ne(1), OF conjI, OF ne(2) on]
    unfolding key .
  have sum: "near_duplicates_found (stats ?run)
         + (if cfg_find_near_duplicates default_config
            then sum_list (map (\<lambda>ps. int (length ps) - 1)
                            (filter (\<lambda>ps. 1 < length ps) (map snd (near_duplicates ?run))))
            else 0) = 1"
    by code_simp
  have r: "near_duplicates_found (stats (generate_reports default_config ?run)) = 1"
    using t[where st = ?run, THEN conjunct2, THEN conjunct2, THEN conjunct2, THEN conjunct2]
    unfolding sum .
  from md ne on g r show ?thesis
    by (intro conjI)
qed

text \<open>
  Claim C9: in a run over distinct paths that starts with an empty index, empty groups and
  an empty plan, a file that is skipped (its hash cannot be computed, or an earlier file
  has the same hash) leaves the groups unchanged at its step and occurs in no group after
  the run; every grouped path is in the plan, whose paths are those recorded in the index;
  and the counter after the report step is computed from these groups alone.
\<close>

theorem near_duplicates_survivors_only:
  assumes dist: "distinct files"
      and empty: "duplicates st0 = Map.empty" "near_duplicates st0 = []"
      and j: "j < length files"
      and skipped: "get_file_hash e (files ! j) = None \<or> get_file_hash e (files ! j) = Some []
                    \<or> (\<exists>i<j. get_file_hash e (files ! i) = get_file_hash e (files ! j))"
  shows "(case organize_scan cfg e (take j files) (st0, []) of
            (s, p) \<Rightarrow>
              near_duplicates (fst (organize_step cfg e (s, p) (files ! j))) = near_duplicates s)
       \<and> (case organize_scan cfg e files (st0, []) of
            (st', plan') \<Rightarrow>
              files ! j \<notin> set (grouped_paths (near_duplicates st'))
              \<and> set (grouped_paths (near_duplicates st')) \<subseteq> set (plan_paths plan')
              \<and> set (plan_paths plan') = ran (duplicates st')
              \<and> near_duplicates_found (stats (generate_reports cfg st')) =
                  near_duplicates_found (stats st0)
                    + (if cfg_find_near_duplicates cfg
                       then sum_list (map (\<lambda>ps. int (length ps) - 1)
                              (filter (\<lambda>ps. 1 < length ps) (map snd (near_duplicates st'))))
                       else 0))"
proof -
  obtain s p where before: "organize_scan cfg e (take j files) (st0, []) = (s, p)"
    by (metis surj_pair)
  have same: "near_duplicates (fst (organize_step cfg e (s, p) (files ! j))) = near_duplicates s"
  proof (cases "get_file_hash e (files ! j) = None \<or> get_file_hash e (files ! j) = Some []")
    case True
    from organize_step_unhashable[OF True, of cfg s p] show ?thesis by simp
  next
    case False
    then obtain h where h: "get_file_hash e (files ! j) = Some h" "h \<noteq> []"
      by (cases "get_file_hash e (files ! j)") auto
    from False skipped obtain i where i: "i < j"
      "get_file_hash e (files ! i) = get_file_hash e (files ! j)"
      by blast
    have i': "i < length (take j files)" "take j files ! i = files ! i"
      using i(1) j by simp_all
    have "get_file_hash e (take j files ! i) = Some h"
      using i(2) h(1) i'(2) by simp
    from first_recorded[OF scan_invariant[OF empty(1) before, THEN conjunct1] h(2) i'(1) this]
    have "duplicates s h \<noteq> None" by auto
    from organize_step_duplicate[OF h this, of cfg p] show ?thesis by simp
  qed
  obtain st' plan' where run: "organize_scan cfg e files (st0, []) = (st', plan')"
    by (metis surj_pair)
  note inv = scan_invariant[OF empty(1) run]
  from inv have d: "duplicates st' =
      (\<lambda>h. if h = [] then None else find (\<lambda>f. get_file_hash e f = Some h) files)"
    and pp: "set (plan_paths plan') = ran (duplicates st')"
    and gp: "set (grouped_paths (near_duplicates st'))
               \<subseteq> set (grouped_paths (near_duplicates st0)) \<union> ran (duplicates st')"
    and nf: "near_duplicates_found (stats st') = near_duplicates_found (stats st0)"
    by blast+
  have gp': "set (grouped_paths (near_duplicates st')) \<subseteq> ran (duplicates st')"
    using gp empty(2) by (simp add: grouped_paths_def)
  have nr: "files ! j \<notin> ran (duplicates st')"
    using skipped_not_recorded[OF dist d j skipped] .
  have "files ! j \<notin> set (grouped_paths (near_duplicates st'))"
    using nr gp' by blast
  moreover have "set (grouped_paths (near_duplicates st')) \<subseteq> set (plan_paths plan')"
    using gp' pp by simp
  moreover have "near_duplicates_found (stats (generate_reports cfg st')) =
                  near_duplicates_found (stats st0)
                    + (if cfg_find_near_duplicates cfg
                       then sum_list (map (\<lambda>ps. int (length ps) - 1)
                              (filter (\<lambda>ps. 1 < length ps) (map snd (near_duplicates st'))))
                       else 0)"
    unfolding generate_reports_counter nf ..
  ultimately show ?thesis
    using same pp unfolding before run by simp
qed

theorem near_duplicates_survivors_only_witness:
  "distinct batch_files
   \<and> duplicates (init_organizer music_root) = Map.empty
   \<and> near_duplicates (init_organizer music_root) = []
   \<and> 3 < length batch_files
   \<and> (\<exists>i<3. get_file_hash batch_env (batch_files ! i) = get_file_hash batch_env (batch_files ! 3))
   \<and> batch_files ! 3 \<notin> set (grouped_paths (near_duplicates (fst (organize_scan default_config
          batch_env batch_files (init_organizer music_root, [])))))
   \<and> near_duplicates (fst (organize_scan default_config batch_env batch_files
          (init_organizer music_root, []))) = [(''ac/dc_thunderstruck'', [file_a, file_c])]"
proof -
  have h1: "distinct batch_files"
    by code_simp
  have h2: "duplicates (init_organizer music_root) = Map.empty"
    and h3: "near_duplicates (init_organizer music_root) = []"
    by (simp_all add: init_organizer_def)
  have h4: "3 < length batch_files"
    by (simp add: batch_files_def)
  have "get_file_hash batch_env (batch_files ! 0) = get_file_hash batch_env (batch_files ! 3)"
    by code_simp
  then have h5: "\<exists>i<3. get_file_hash batch_env (batch_files ! i)
                         = get_file_hash batch_env (batch_files ! 3)"
    by (intro exI[of _ 0]) simp
  then have h5': "get_file_hash batch_env (batch_files ! 3) = None
                  \<or> get_file_hash batch_env (batch_files ! 3) = Some []
                  \<or> (\<exists>i<3. get_file_hash batch_env (batch_files ! i)
                         = get_file_hash batch_env (batch_files ! 3))"
    by blast
  note t = near_duplicates_survivors_only[OF h1 h2 h3 h4 h5', where cfg = default_config]
  have c: "batch_files ! 3 \<notin> set (grouped_paths (near_duplicates (fst (organize_scan
             default_config batch_env batch_files (init_organizer music_root, [])))))"
    using t[THEN conjunct2] by (simp add: case_prod_beta)
  have v: "near_duplicates (fst (organize_scan default_config batch_env batch_files
          (init_organizer music_root, []))) = [(''ac/dc_thunderstruck'', [file_a, file_c])]"
    by code_simp
  from h1 h2 h3 h4 h5 c v show ?thesis
    by (intro conjI)
qed

end
